theory Spec2Isabelle
  imports Main "HOL-Library.AList"
begin

section \<open>JavaScript values, errors and insertion-ordered maps\<close>

text \<open>
  The runtime is JavaScript. Values that cross the component boundaries (hook data,
  setting values) are modelled by \<open>jsval\<close>; numbers are integers here, which is all the
  modelled checks (\<open>typeof\<close>, \<open><\<close>, \<open>>\<close>, \<open>===\<close>) need.
  Every \<open>throw new Error(msg)\<close> of the source is the value \<open>Error msg\<close>; the source has
  no error classes, an error is identified by its message. An error raised by the
  engine is an \<open>Error\<close> too, its message starting with the class name. Client code may
  throw any value: \<open>Thrown v\<close> is a thrown value \<open>v\<close> that is not an error object, \<open>null\<close>
  and \<open>undefined\<close> included.
\<close>

datatype jsval =
    JUndefined
  | JNull
  | JBool bool
  | JNum int
  | JStr string
  | JArr "jsval list"
  | JObj "(string \<times> jsval) list"

datatype js_error = Error string | Thrown jsval

text \<open>
  A JavaScript \<open>Map\<close> iterates in insertion order, and \<open>set\<close> on an existing key keeps
  the key's position. It is modelled as an association list with unique keys.
\<close>

type_synonym ('k, 'v) jsmap = "('k \<times> 'v) list"

fun map_get :: "('k, 'v) jsmap \<Rightarrow> 'k \<Rightarrow> 'v option" where
  "map_get [] k = None"
| "map_get ((k', v) # m) k = (if k' = k then Some v else map_get m k)"

definition map_has :: "('k, 'v) jsmap \<Rightarrow> 'k \<Rightarrow> bool" where
  "map_has m k = (map_get m k \<noteq> None)"

fun map_set :: "('k, 'v) jsmap \<Rightarrow> 'k \<Rightarrow> 'v \<Rightarrow> ('k, 'v) jsmap" where
  "map_set [] k v = [(k, v)]"
| "map_set ((k', v') # m) k v = (if k' = k then (k, v) # m else (k', v') # map_set m k v)"

fun map_delete :: "('k, 'v) jsmap \<Rightarrow> 'k \<Rightarrow> ('k, 'v) jsmap" where
  "map_delete [] k = []"
| "map_delete ((k', v) # m) k = (if k' = k then map_delete m k else (k', v) # map_delete m k)"

definition map_keys :: "('k, 'v) jsmap \<Rightarrow> 'k list" where
  "map_keys m = map fst m"

text \<open>\<open>Array.prototype.findIndex\<close> followed by \<open>splice(index, 1)\<close>: drop the first match.\<close>

fun remove_first :: "('a \<Rightarrow> bool) \<Rightarrow> 'a list \<Rightarrow> 'a list" where
  "remove_first P [] = []"
| "remove_first P (x # xs) = (if P x then xs else x # remove_first P xs)"

text \<open>\<open>Array.prototype.join\<close> on strings.\<close>

fun join :: "string \<Rightarrow> string list \<Rightarrow> string" where
  "join sep [] = []"
| "join sep [x] = x"
| "join sep (x # y # ys) = x @ sep @ join sep (y # ys)"

section \<open>HookSystem\<close>

text \<open>
  A handler is an async function of the context object \<open>{data, cancel}\<close>. It is modelled
  by what the emission observes of it: the value it resolves to (or that it rejects),
  and whether it called \<open>context.cancel()\<close>. The argument is \<open>context.data\<close> as the
  handler finds it when it is invoked.
\<close>

datatype outcome = Returned jsval | Threw string

type_synonym handler_fn = "jsval \<Rightarrow> outcome \<times> bool"

text \<open>
  A registration entry \<open>{handler, priority, once, plugin, id: Symbol('handler')}\<close>.
  Symbols are modelled as numbers drawn from a counter, so every entry gets a fresh one.
\<close>

record entry =
  handler :: handler_fn
  priority :: int
  once :: bool
  plugin :: "string option"
  sym :: nat

record hook_system =
  hooks :: "(string, entry list) jsmap"
  pluginHooks :: "(string, (string \<times> nat) list) jsmap"
  nextSymbol :: nat

definition hooks_empty :: hook_system where
  "hooks_empty = \<lparr>hooks = [], pluginHooks = [], nextSymbol = 0\<rparr>"

record register_options =
  opt_priority :: "int option"
  opt_once :: "bool option"
  opt_plugin :: "string option"

definition no_options :: register_options where
  "no_options = \<lparr>opt_priority = None, opt_once = None, opt_plugin = None\<rparr>"

text \<open>\<open>if (plugin)\<close>: \<open>null\<close> and the empty string are falsy.\<close>

definition truthy_plugin :: "string option \<Rightarrow> bool" where
  "truthy_plugin p = (case p of None \<Rightarrow> False | Some s \<Rightarrow> s \<noteq> [])"

text \<open>
  \<open>register(hookName, handler, options)\<close>: push the entry, then
  \<open>handlers.sort((a, b) => a.priority - b.priority)\<close>, a stable sort. The source throws
  when \<open>handler\<close> is not a function; here the type of \<open>handler\<close> excludes that input.
  The result is the new table and the entry's symbol (what the returned unregister
  closure holds).
\<close>

definition register :: "string \<Rightarrow> handler_fn \<Rightarrow> register_options \<Rightarrow> hook_system
    \<Rightarrow> hook_system \<times> nat" where
  "register hookName h options hs =
    (let e = \<lparr>handler = h,
              priority = (case opt_priority options of None \<Rightarrow> 50 | Some p \<Rightarrow> p),
              once = (case opt_once options of None \<Rightarrow> False | Some b \<Rightarrow> b),
              plugin = opt_plugin options,
              sym = nextSymbol hs\<rparr>;
         hm = (if map_has (hooks hs) hookName then hooks hs else map_set (hooks hs) hookName []);
         handlers = (case map_get hm hookName of None \<Rightarrow> [] | Some l \<Rightarrow> l);
         hm' = map_set hm hookName (sort_key priority (handlers @ [e]));
         ph = (case plugin e of
                 None \<Rightarrow> pluginHooks hs
               | Some p \<Rightarrow>
                   if truthy_plugin (plugin e) then
                     (let pm = (if map_has (pluginHooks hs) p then pluginHooks hs
                                else map_set (pluginHooks hs) p []);
                          l = (case map_get pm p of None \<Rightarrow> [] | Some l \<Rightarrow> l)
                      in map_set pm p (l @ [(hookName, sym e)]))
                   else pluginHooks hs)
     in (\<lparr>hooks = hm', pluginHooks = ph, nextSymbol = Suc (nextSymbol hs)\<rparr>, sym e))"

text \<open>
  \<open>_unregister(hookName, handlerId)\<close>: remove the entry from the hook's array, remove
  its record from the owning plugin's tracking list, and drop the hook name when its
  array became empty.
\<close>

definition unregister_id :: "string \<Rightarrow> nat \<Rightarrow> hook_system \<Rightarrow> hook_system" where
  "unregister_id hookName handlerId hs =
    (case map_get (hooks hs) hookName of
       None \<Rightarrow> hs
     | Some handlers \<Rightarrow>
        (let found = find (\<lambda>e. sym e = handlerId) handlers;
             handlers' = remove_first (\<lambda>e. sym e = handlerId) handlers;
             ph = (case found of
                     None \<Rightarrow> pluginHooks hs
                   | Some removed \<Rightarrow>
                      (case plugin removed of
                         None \<Rightarrow> pluginHooks hs
                       | Some p \<Rightarrow>
                          if truthy_plugin (plugin removed) then
                            (case map_get (pluginHooks hs) p of
                               None \<Rightarrow> pluginHooks hs
                             | Some l \<Rightarrow>
                                 map_set (pluginHooks hs) p
                                   (remove_first (\<lambda>r. fst r = hookName \<and> snd r = handlerId) l))
                          else pluginHooks hs));
             hm = (if handlers' = [] then map_delete (hooks hs) hookName
                   else map_set (hooks hs) hookName handlers')
         in hs\<lparr>hooks := hm, pluginHooks := ph\<rparr>))"

text \<open>
  \<open>unregisterPlugin(pluginId)\<close> runs \<open>pluginHookList.forEach(...)\<close> over the very array
  that \<open>_unregister\<close> splices. \<open>forEach\<close> reads the length once, then visits the indices
  \<open>0, 1, ...\<close> below it, calling back only for an index that is still present in the
  array at that moment. \<open>forEach_live k n\<close> is that loop at index \<open>k\<close> with \<open>n\<close> indices
  left; it reads the tracking list afresh from the table at every index.
\<close>

fun forEach_live :: "string \<Rightarrow> nat \<Rightarrow> nat \<Rightarrow> hook_system \<Rightarrow> hook_system" where
  "forEach_live pluginId k 0 hs = hs"
| "forEach_live pluginId k (Suc n) hs =
    (let l = (case map_get (pluginHooks hs) pluginId of None \<Rightarrow> [] | Some l \<Rightarrow> l)
     in forEach_live pluginId (Suc k) n
          (if k < length l then unregister_id (fst (l ! k)) (snd (l ! k)) hs else hs))"

definition unregisterPlugin :: "string \<Rightarrow> hook_system \<Rightarrow> hook_system" where
  "unregisterPlugin pluginId hs =
    (case map_get (pluginHooks hs) pluginId of
       None \<Rightarrow> hs
     | Some l \<Rightarrow>
        (let hs' = forEach_live pluginId 0 (length l) hs
         in hs'\<lparr>pluginHooks := map_delete (pluginHooks hs') pluginId\<rparr>))"

definition getPluginHooks :: "hook_system \<Rightarrow> string \<Rightarrow> (string \<times> nat) list" where
  "getPluginHooks hs pluginId =
    (case map_get (pluginHooks hs) pluginId of None \<Rightarrow> [] | Some l \<Rightarrow> l)"

definition hooks_clear :: "hook_system \<Rightarrow> hook_system" where
  "hooks_clear hs = hs\<lparr>hooks := [], pluginHooks := []\<rparr>"

text \<open>
  \<open>_groupByPriority(handlers)\<close>: a \<open>Map\<close> from priority to the entries of that priority
  in array order, then the groups sorted by ascending priority.
\<close>

definition groupByPriority :: "entry list \<Rightarrow> entry list list" where
  "groupByPriority handlers =
    map snd (sort_key fst
      (fold (\<lambda>e groups.
               (let g = (if map_has groups (priority e) then groups
                         else map_set groups (priority e) [])
                in map_set g (priority e)
                     ((case map_get g (priority e) of None \<Rightarrow> [] | Some l \<Rightarrow> l) @ [e])))
            handlers []))"

text \<open>
  The local variables of \<open>emit\<close>: \<open>currentData\<close>, \<open>cancelled\<close>, \<open>handlersToRemove\<close>.
  \<open>calls\<close> is not in the source: it records, in invocation order, which entry was
  invoked and the \<open>context.data\<close> it was handed, so that claims about what a handler
  receives can be stated.
\<close>

record emit_state =
  currentData :: jsval
  cancelled :: bool
  handlersToRemove :: "nat list"
  calls :: "(nat \<times> jsval) list"

text \<open>
  The sequential branch. \<open>ctx\<close> is \<open>context.data\<close>, fixed when the context object of the
  group was created; the loop updates \<open>currentData\<close> only. A handler that throws is
  logged and, in this branch, not marked for removal.
\<close>

fun run_sequential :: "bool \<Rightarrow> jsval \<Rightarrow> entry list \<Rightarrow> emit_state \<Rightarrow> emit_state" where
  "run_sequential cancelable ctx [] st = st"
| "run_sequential cancelable ctx (e # es) st =
    (if cancelled st \<and> cancelable then st
     else
       (let (res, cancels) = handler e ctx;
            st1 = st\<lparr>calls := calls st @ [(sym e, ctx)],
                     cancelled := (cancelled st \<or> (cancels \<and> cancelable))\<rparr>;
            st2 = (case res of
                     Threw msg \<Rightarrow> st1
                   | Returned v \<Rightarrow>
                       (let st' = (if v \<noteq> JUndefined then st1\<lparr>currentData := v\<rparr> else st1)
                        in if once e
                           then st'\<lparr>handlersToRemove := handlersToRemove st' @ [sym e]\<rparr>
                           else st'))
        in run_sequential cancelable ctx es st2))"

text \<open>
  The parallel branch: every handler of the group is started on the same context;
  \<open>Promise.allSettled\<close> keeps the results in group order; every \<open>once\<close> entry is marked
  for removal; the last fulfilled result that is not \<open>undefined\<close> becomes the data.
\<close>

definition run_parallel :: "bool \<Rightarrow> jsval \<Rightarrow> entry list \<Rightarrow> emit_state \<Rightarrow> emit_state" where
  "run_parallel cancelable ctx grp st =
    (let results = map (\<lambda>e. handler e ctx) grp;
         values = concat (map (\<lambda>(res, c). case res of
                                   Returned v \<Rightarrow> (if v \<noteq> JUndefined then [v] else [])
                                 | Threw msg \<Rightarrow> []) results)
     in st\<lparr>calls := calls st @ map (\<lambda>e. (sym e, ctx)) grp,
           cancelled := (cancelled st \<or> (cancelable \<and> (\<exists>r \<in> set results. snd r))),
           handlersToRemove := handlersToRemove st @ map sym (filter once grp),
           currentData := (if values = [] then currentData st else last values)\<rparr>)"

fun run_groups :: "bool \<Rightarrow> bool \<Rightarrow> entry list list \<Rightarrow> emit_state \<Rightarrow> emit_state" where
  "run_groups par cancelable [] st = st"
| "run_groups par cancelable (g # gs) st =
    (if cancelled st \<and> cancelable then st
     else run_groups par cancelable gs
            (if par then run_parallel cancelable (currentData st) g st
             else run_sequential cancelable (currentData st) g st))"

record emit_options =
  parallel :: "bool option"
  cancelable :: "bool option"

text \<open>
  \<open>emit(hookName, data = null, options = {})\<close>. A default parameter applies when the
  argument is \<open>undefined\<close>, so \<open>undefined\<close> data is replaced by \<open>null\<close> before anything
  else happens. The result is the new table (once-handlers removed) and the returned
  object \<open>{data, cancelled}\<close>.
\<close>

definition emit_run :: "string \<Rightarrow> jsval \<Rightarrow> emit_options \<Rightarrow> hook_system \<Rightarrow> emit_state" where
  "emit_run hookName data0 options hs =
    (let data = (if data0 = JUndefined then JNull else data0);
         par = (case parallel options of None \<Rightarrow> True | Some b \<Rightarrow> b);
         canc = (case cancelable options of None \<Rightarrow> False | Some b \<Rightarrow> b);
         st0 = \<lparr>currentData = data, cancelled = False, handlersToRemove = [], calls = []\<rparr>
     in case map_get (hooks hs) hookName of
          None \<Rightarrow> st0
        | Some handlers \<Rightarrow>
            if handlers = [] then st0
            else run_groups par canc (groupByPriority handlers) st0)"

definition emit :: "string \<Rightarrow> jsval \<Rightarrow> emit_options \<Rightarrow> hook_system
    \<Rightarrow> hook_system \<times> (jsval \<times> bool)" where
  "emit hookName data0 options hs =
    (let st = emit_run hookName data0 options hs
     in (fold (\<lambda>i h. unregister_id hookName i h) (handlersToRemove st) hs,
         (currentData st, cancelled st)))"

text \<open>\<open>filter\<close> and \<open>action\<close>, the two conveniences over \<open>emit\<close>.\<close>

definition hook_filter :: "string \<Rightarrow> jsval \<Rightarrow> hook_system \<Rightarrow> hook_system \<times> jsval" where
  "hook_filter hookName initialData hs =
    (let (hs', r) = emit hookName initialData \<lparr>parallel = Some False, cancelable = None\<rparr> hs
     in (hs', fst r))"

definition action :: "string \<Rightarrow> jsval \<Rightarrow> hook_system \<Rightarrow> hook_system" where
  "action hookName data hs =
    fst (emit hookName data \<lparr>parallel = Some True, cancelable = None\<rparr> hs)"

section \<open>SettingsStore\<close>

text \<open>
  JavaScript objects used as dictionaries (the settings document, a schema) are
  association lists in property-insertion order. \<open>typeof\<close>, truthiness and
  \<open>Array.isArray\<close> on the modelled values:
\<close>

fun typeof :: "jsval \<Rightarrow> string" where
  "typeof JUndefined = ''undefined''"
| "typeof JNull = ''object''"
| "typeof (JBool b) = ''boolean''"
| "typeof (JNum n) = ''number''"
| "typeof (JStr s) = ''string''"
| "typeof (JArr xs) = ''object''"
| "typeof (JObj kvs) = ''object''"

fun truthy :: "jsval \<Rightarrow> bool" where
  "truthy JUndefined = False"
| "truthy JNull = False"
| "truthy (JBool b) = b"
| "truthy (JNum n) = (n \<noteq> 0)"
| "truthy (JStr s) = (s \<noteq> [])"
| "truthy (JArr xs) = True"
| "truthy (JObj kvs) = True"

fun isArray :: "jsval \<Rightarrow> bool" where
  "isArray (JArr xs) = True"
| "isArray v = False"

text \<open>
  A setting definition of a schema: \<open>{type, default, min, max, enum, validator}\<close>
  (display-only fields are left out). An absent field is \<open>None\<close>; an absent \<open>default\<close>
  is \<open>JUndefined\<close>. A custom validator is modelled by the truthiness of its result.
\<close>

record setting_def =
  sd_type :: "string option"
  sd_default :: jsval
  sd_min :: "int option"
  sd_max :: "int option"
  sd_enum :: "jsval list option"
  sd_validator :: "(jsval \<Rightarrow> bool) option"

type_synonym schema = "(string, setting_def) jsmap"

text \<open>
  The settings document \<open>{version, core, plugins: {[id]: {enabled, settings}}}\<close>. A
  stored plugin entry may lack its \<open>settings\<close> object (\<open>None\<close>).
\<close>

record plugin_entry =
  enabled :: jsval
  settings :: "(string, jsval) jsmap option"

record settings_doc =
  version :: string
  core :: "(string, jsval) jsmap"
  plugins :: "(string, plugin_entry) jsmap"

text \<open>
  The store: the document, the registered schemas, and \<open>persistQueued\<close>, which counts
  the calls of \<open>_queuePersist\<close> (each call re-arms the 500 ms timer whose expiry writes
  the document to persistent storage). Watcher callbacks are client code and are not
  modelled.
\<close>

record settings_store =
  doc :: settings_doc
  schemas :: "(string, schema) jsmap"
  persistQueued :: nat

definition settings_initial :: settings_store where
  "settings_initial =
    \<lparr>doc = \<lparr>version = ''1.0.0'',
             core = [(''theme'', JStr ''dark''), (''debugMode'', JBool False)],
             plugins = []\<rparr>,
     schemas = [], persistQueued = 0\<rparr>"

definition getDefaults :: "schema \<Rightarrow> (string, jsval) jsmap" where
  "getDefaults sch =
    fold (\<lambda>(key, definition) defaults.
            if sd_default definition \<noteq> JUndefined
            then map_set defaults key (sd_default definition) else defaults)
         sch []"

text \<open>The object spread \<open>{...a, ...b}\<close>.\<close>

definition spread :: "('k, 'v) jsmap \<Rightarrow> ('k, 'v) jsmap \<Rightarrow> ('k, 'v) jsmap" where
  "spread a b = fold (\<lambda>(k, v) m. map_set m k v) b a"

definition registerSchema :: "string \<Rightarrow> schema \<Rightarrow> settings_store \<Rightarrow> settings_store" where
  "registerSchema pluginId sch st =
    (let d = doc st;
         entry' = (case map_get (plugins d) pluginId of
                     None \<Rightarrow> \<lparr>enabled = JBool False, settings = Some (getDefaults sch)\<rparr>
                   | Some pe \<Rightarrow>
                       pe\<lparr>settings := Some (spread (getDefaults sch)
                                              (case settings pe of None \<Rightarrow> [] | Some c \<Rightarrow> c))\<rparr>)
     in st\<lparr>schemas := map_set (schemas st) pluginId sch,
           doc := d\<lparr>plugins := map_set (plugins d) pluginId entry'\<rparr>\<rparr>)"

definition or_undefined :: "jsval option \<Rightarrow> jsval" where
  "or_undefined v = (case v of None \<Rightarrow> JUndefined | Some x \<Rightarrow> x)"

definition settings_get :: "settings_store \<Rightarrow> string \<Rightarrow> string \<Rightarrow> jsval" where
  "settings_get st pluginId key =
    (if pluginId = ''core'' then or_undefined (map_get (core (doc st)) key)
     else case map_get (plugins (doc st)) pluginId of
            None \<Rightarrow> JUndefined
          | Some pe \<Rightarrow>
              if key = ''enabled'' then enabled pe
              else (case settings pe of
                      None \<Rightarrow> JUndefined
                    | Some m \<Rightarrow> or_undefined (map_get m key)))"

text \<open>
  \<open>_validate(pluginId, key, value)\<close>. \<open>enumValues.includes(value)\<close> compares with
  structural equality here (the source compares arrays and objects by reference).
\<close>

definition validate :: "settings_store \<Rightarrow> string \<Rightarrow> string \<Rightarrow> jsval \<Rightarrow> bool" where
  "validate st pluginId key v =
    (case map_get (schemas st) pluginId of
       None \<Rightarrow> True
     | Some sch \<Rightarrow>
        (case map_get sch key of
           None \<Rightarrow> True
         | Some definition \<Rightarrow>
            (let type_ok =
                   (case sd_type definition of
                      None \<Rightarrow> True
                    | Some t \<Rightarrow>
                        if t = ''boolean'' then typeof v = ''boolean''
                        else if t = ''string'' then typeof v = ''string''
                        else if t = ''number'' then
                          (case v of
                             JNum n \<Rightarrow>
                               \<not> (case sd_min definition of None \<Rightarrow> False | Some lo \<Rightarrow> n < lo)
                               \<and> \<not> (case sd_max definition of None \<Rightarrow> False | Some hi \<Rightarrow> n > hi)
                           | _ \<Rightarrow> False)
                        else if t = ''array'' then isArray v
                        else if t = ''object'' then typeof v = ''object'' \<and> v \<noteq> JNull
                        else True)
             in if \<not> type_ok then False
                else if (case sd_enum definition of None \<Rightarrow> False | Some vs \<Rightarrow> v \<notin> set vs)
                then False
                else (case sd_validator definition of None \<Rightarrow> True | Some f \<Rightarrow> f v))))"

text \<open>
  \<open>set(pluginId, key, value, skipValidation)\<close>: validate, update the document in memory,
  queue the persist, emit \<open>settings:changed\<close> and \<open>settings:plugin-changed:<id>\<close>.
  Writing a key of a plugin entry without a \<open>settings\<close> object is a TypeError in the
  source.
\<close>

definition settings_set :: "string \<Rightarrow> string \<Rightarrow> jsval \<Rightarrow> bool \<Rightarrow> hook_system \<times> settings_store
    \<Rightarrow> js_error + hook_system \<times> settings_store" where
  "settings_set pluginId key v skipValidation w =
    (let hs = fst w; st = snd w in
     if \<not> skipValidation \<and> \<not> validate st pluginId key v
     then Inl (Error (''Invalid value for '' @ pluginId @ ''.'' @ key))
     else
       (let oldValue = settings_get st pluginId key;
            d = doc st;
            written =
              (if pluginId = ''core'' then Some (d\<lparr>core := map_set (core d) key v\<rparr>)
               else
                 (let pe = (case map_get (plugins d) pluginId of
                              None \<Rightarrow> \<lparr>enabled = JBool False, settings = Some []\<rparr>
                            | Some pe \<Rightarrow> pe)
                  in if key = ''enabled''
                     then Some (d\<lparr>plugins := map_set (plugins d) pluginId (pe\<lparr>enabled := v\<rparr>)\<rparr>)
                     else (case settings pe of
                             None \<Rightarrow> None
                           | Some m \<Rightarrow>
                               Some (d\<lparr>plugins := map_set (plugins d) pluginId
                                                     (pe\<lparr>settings := Some (map_set m key v)\<rparr>)\<rparr>))))
        in case written of
             None \<Rightarrow> Inl (Error ''TypeError: Cannot set properties of undefined'')
           | Some d' \<Rightarrow>
              (let st' = st\<lparr>doc := d', persistQueued := Suc (persistQueued st)\<rparr>;
                   hs1 = action ''settings:changed''
                           (JObj [(''pluginId'', JStr pluginId), (''key'', JStr key),
                                  (''value'', v), (''oldValue'', oldValue)]) hs;
                   hs2 = action (''settings:plugin-changed:'' @ pluginId)
                           (JObj [(''key'', JStr key), (''value'', v), (''oldValue'', oldValue)]) hs1
               in Inr (hs2, st'))))"


definition settings_enable :: "string \<Rightarrow> hook_system \<times> settings_store
    \<Rightarrow> js_error + hook_system \<times> settings_store" where
  "settings_enable pluginId w = settings_set pluginId ''enabled'' (JBool True) True w"

definition settings_disable :: "string \<Rightarrow> hook_system \<times> settings_store
    \<Rightarrow> js_error + hook_system \<times> settings_store" where
  "settings_disable pluginId w = settings_set pluginId ''enabled'' (JBool False) True w"

section \<open>PluginRegistry\<close>

datatype plugin_state =
  UNLOADED | LOADING | LOADED | STARTING | ACTIVE | STOPPING | STOPPED | ERROR | DESTROYED

fun state_name :: "plugin_state \<Rightarrow> string" where
  "state_name UNLOADED = ''UNLOADED''"
| "state_name LOADING = ''LOADING''"
| "state_name LOADED = ''LOADED''"
| "state_name STARTING = ''STARTING''"
| "state_name ACTIVE = ''ACTIVE''"
| "state_name STOPPING = ''STOPPING''"
| "state_name STOPPED = ''STOPPED''"
| "state_name ERROR = ''ERROR''"
| "state_name DESTROYED = ''DESTROYED''"

text \<open>
  The part of the runtime a plugin's own code can reach through its API object: the
  hook table and the settings store.
  A lifecycle method (\<open>init\<close>, \<open>start\<close>, \<open>stop\<close>, \<open>destroy\<close>) is client code: it is
  modelled by its effect on that part and by the error it throws, if it throws.
\<close>

type_synonym lifecycle_fn =
  "hook_system \<times> settings_store \<Rightarrow> (hook_system \<times> settings_store) \<times> js_error option"

text \<open>
  A manifest, which is also the plugin instance (\<open>loadPlugin\<close> stores the module's
  default export as the instance). \<open>ident\<close> is the field \<open>id\<close>; a missing \<open>id\<close> is the
  empty string, falsy like \<open>undefined\<close>. Optional fields are \<open>None\<close> when absent.
\<close>

record manifest =
  ident :: string
  dependencies :: "string list option"
  optionalDependencies :: "string list option"
  conflicts :: "string list option"
  m_hooks :: "(string \<times> handler_fn) list option"
  m_settings :: "schema option"
  m_init :: "lifecycle_fn option"
  m_start :: "lifecycle_fn option"
  m_stop :: "lifecycle_fn option"
  m_destroy :: "lifecycle_fn option"

text \<open>
  What the source reads of a caught value. \<open>error.message\<close> is a TypeError of the engine
  when the value is \<open>null\<close> or \<open>undefined\<close>, the property (or \<open>undefined\<close>) for every
  other value; \<open>error_truthy\<close> is the truthiness of the value, as \<open>error || null\<close> tests
  it; \<open>error_value\<close> is the value as data, an error object being \<open>{message}\<close>.
\<close>

definition error_message :: "js_error \<Rightarrow> js_error + jsval" where
  "error_message err =
    (case err of
       Error msg \<Rightarrow> Inr (JStr msg)
     | Thrown v \<Rightarrow>
        (case v of
           JUndefined \<Rightarrow> Inl (Error ''TypeError: Cannot read properties of undefined'')
         | JNull \<Rightarrow> Inl (Error ''TypeError: Cannot read properties of null'')
         | JObj props \<Rightarrow> Inr (or_undefined (map_get props ''message''))
         | _ \<Rightarrow> Inr JUndefined))"

definition error_truthy :: "js_error \<Rightarrow> bool" where
  "error_truthy err = (case err of Error msg \<Rightarrow> True | Thrown v \<Rightarrow> truthy v)"

definition error_value :: "js_error \<Rightarrow> jsval" where
  "error_value err =
    (case err of Error msg \<Rightarrow> JObj [(''message'', JStr msg)] | Thrown v \<Rightarrow> v)"

text \<open>
  A metadata entry \<open>{registeredAt, loadTime, lastError}\<close>. The time stamps
  \<open>registeredAt\<close> and \<open>loadTime\<close> are left out, and with them the \<open>loadTime\<close> update of
  \<open>setState\<close>; of \<open>lastError = {message, stack, timestamp}\<close> the message is kept
  (\<open>None\<close> is \<open>null\<close>).
\<close>

record meta =
  lastError :: "jsval option"

text \<open>
  The registry's maps. The field \<open>dependencies\<close> of the class is \<open>dep_map\<close> here, since
  the manifest has a field of that name.
\<close>

record registry =
  manifests :: "(string, manifest) jsmap"
  instances :: "(string, manifest) jsmap"
  states :: "(string, plugin_state) jsmap"
  errors :: "(string, js_error) jsmap"
  metadata :: "(string, meta) jsmap"
  dep_map :: "(string, string list) jsmap"
  dependents :: "(string, string list) jsmap"

definition registry_empty :: "registry" where
  "registry_empty = \<lparr>manifests = [], instances = [], states = [], errors = [],
                      metadata = [], dep_map = [], dependents = []\<rparr>"

definition or_empty :: "'a list option \<Rightarrow> 'a list" where
  "or_empty l = (case l of None \<Rightarrow> [] | Some xs \<Rightarrow> xs)"

definition buildDependencies :: "manifest \<Rightarrow> registry \<Rightarrow> registry" where
  "buildDependencies m reg =
    (let allDeps = or_empty (dependencies m) @ or_empty (optionalDependencies m)
     in reg\<lparr>dep_map := map_set (dep_map reg) (ident m) allDeps,
            dependents :=
              fold (\<lambda>depId ds.
                      (let ds' = (if map_has ds depId then ds else map_set ds depId [])
                       in map_set ds' depId (or_empty (map_get ds' depId) @ [ident m])))
                   allDeps (dependents reg)\<rparr>)"

text \<open>
  \<open>register(manifest)\<close>: throws when the id is missing; when the id is already
  registered it logs a warning and returns without a change.
\<close>

definition registry_register :: "manifest \<Rightarrow> registry \<Rightarrow> js_error + registry" where
  "registry_register m reg =
    (if ident m = [] then Inl (Error ''Plugin manifest must have an id'')
     else if map_has (manifests reg) (ident m) then Inr reg
     else Inr ((buildDependencies m
                 (reg\<lparr>manifests := map_set (manifests reg) (ident m) m,
                       states := map_set (states reg) (ident m) UNLOADED\<rparr>))
               \<lparr>metadata := map_set (metadata reg) (ident m) \<lparr>lastError = None\<rparr>\<rparr>))"

definition getManifest :: "registry \<Rightarrow> string \<Rightarrow> manifest option" where
  "getManifest reg pluginId = map_get (manifests reg) pluginId"

definition getInstance :: "registry \<Rightarrow> string \<Rightarrow> manifest option" where
  "getInstance reg pluginId = map_get (instances reg) pluginId"

definition setInstance :: "string \<Rightarrow> manifest \<Rightarrow> registry \<Rightarrow> registry" where
  "setInstance pluginId inst reg = reg\<lparr>instances := map_set (instances reg) pluginId inst\<rparr>"

definition getState :: "registry \<Rightarrow> string \<Rightarrow> plugin_state" where
  "getState reg pluginId =
    (case map_get (states reg) pluginId of None \<Rightarrow> UNLOADED | Some st \<Rightarrow> st)"

definition setState :: "string \<Rightarrow> plugin_state \<Rightarrow> registry \<Rightarrow> registry" where
  "setState pluginId st reg = reg\<lparr>states := map_set (states reg) pluginId st\<rparr>"

text \<open>\<open>getError\<close> is \<open>this.errors.get(pluginId) || null\<close>: a falsy recorded value reads as \<open>null\<close>.\<close>

definition getError :: "registry \<Rightarrow> string \<Rightarrow> js_error option" where
  "getError reg pluginId =
    (case map_get (errors reg) pluginId of
       None \<Rightarrow> None
     | Some err \<Rightarrow> if error_truthy err then Some err else None)"

text \<open>
  \<open>setError(pluginId, error)\<close> records the value and sets the state ERROR; then, for an
  id with a metadata entry, it reads \<open>error.message\<close> to fill \<open>lastError\<close>. That read
  throws when the value is \<open>null\<close> or \<open>undefined\<close>, after the two updates: the result is
  the registry as it is left and the error thrown, if one is.
\<close>

definition setError :: "string \<Rightarrow> js_error \<Rightarrow> registry \<Rightarrow> registry \<times> js_error option" where
  "setError pluginId err reg =
    (let reg1 = setState pluginId ERROR (reg\<lparr>errors := map_set (errors reg) pluginId err\<rparr>)
     in case map_get (metadata reg1) pluginId of
          None \<Rightarrow> (reg1, None)
        | Some mt \<Rightarrow>
           (case error_message err of
              Inl e \<Rightarrow> (reg1, Some e)
            | Inr msg \<Rightarrow>
               (reg1\<lparr>metadata := map_set (metadata reg1) pluginId (mt\<lparr>lastError := Some msg\<rparr>)\<rparr>,
                None)))"

definition clearError :: "string \<Rightarrow> registry \<Rightarrow> registry" where
  "clearError pluginId reg = reg\<lparr>errors := map_delete (errors reg) pluginId\<rparr>"

definition getPluginsByState :: "registry \<Rightarrow> plugin_state \<Rightarrow> string list" where
  "getPluginsByState reg st = map fst (filter (\<lambda>(pluginId, pluginState). pluginState = st) (states reg))"

definition getActivePlugins :: "registry \<Rightarrow> string list" where
  "getActivePlugins reg = getPluginsByState reg ACTIVE"

definition getDependencies :: "registry \<Rightarrow> string \<Rightarrow> string list" where
  "getDependencies reg pluginId = or_empty (map_get (dep_map reg) pluginId)"

definition getDependents :: "registry \<Rightarrow> string \<Rightarrow> string list" where
  "getDependents reg pluginId = or_empty (map_get (dependents reg) pluginId)"

text \<open>\<open>checkDependencies\<close> returns \<open>{met, missing}\<close>, \<open>checkConflicts\<close> \<open>{conflicts, conflicting}\<close>.\<close>

definition checkDependencies :: "registry \<Rightarrow> string \<Rightarrow> bool \<times> string list" where
  "checkDependencies reg pluginId =
    (case getManifest reg pluginId of
       None \<Rightarrow> (False, [])
     | Some m \<Rightarrow>
        (let missing = filter (\<lambda>depId. getState reg depId \<noteq> ACTIVE) (or_empty (dependencies m))
         in (missing = [], missing)))"

definition checkConflicts :: "registry \<Rightarrow> string \<Rightarrow> bool \<times> string list" where
  "checkConflicts reg pluginId =
    (case getManifest reg pluginId of
       None \<Rightarrow> (False, [])
     | Some m \<Rightarrow>
        (case conflicts m of
           None \<Rightarrow> (False, [])
         | Some cs \<Rightarrow>
            (let conflicting = filter (\<lambda>i. i \<in> set (getActivePlugins reg)) cs
             in (conflicting \<noteq> [], conflicting))))"

section \<open>PluginLoader: load order\<close>

text \<open>
  \<open>resolveLoadOrder(pluginIds)\<close>. The first two loops fill \<open>graph\<close> and \<open>inDegree\<close> for
  every id and add an edge dependency \<open>\<rightarrow>\<close> dependent for every dependency that is itself
  in \<open>pluginIds\<close>. \<open>(inDegree.get(id) || 0) + 1\<close> reads an absent entry as 0.
\<close>

type_synonym graph = "(string, string list) jsmap"
type_synonym indegree = "(string, int) jsmap"

definition add_edge :: "string list \<Rightarrow> string \<Rightarrow> string \<Rightarrow> graph \<times> indegree \<Rightarrow> graph \<times> indegree" where
  "add_edge pluginIds i depId gd =
    (if depId \<in> set pluginIds then
       (let g = (if map_has (fst gd) depId then fst gd else map_set (fst gd) depId [])
        in (map_set g depId (or_empty (map_get g depId) @ [i]),
            map_set (snd gd) i ((case map_get (snd gd) i of None \<Rightarrow> 0 | Some n \<Rightarrow> n) + 1)))
     else gd)"

definition build_graph :: "registry \<Rightarrow> string list \<Rightarrow> graph \<times> indegree" where
  "build_graph reg pluginIds =
    fold (\<lambda>i gd. fold (add_edge pluginIds i) (getDependencies reg i) gd) pluginIds
      (fold (\<lambda>i gd. (map_set (fst gd) i [], map_set (snd gd) i 0)) pluginIds ([], []))"

text \<open>
  The body of \<open>neighbors.forEach\<close>: decrement, and enqueue when the entry is now 0.
  Every neighbor is one of \<open>pluginIds\<close> and so has an entry. For a key without an entry
  the source computes \<open>undefined - 1\<close>, which is \<open>NaN\<close> and never \<open>=== 0\<close>, now or after
  further decrements; the model enqueues nothing and leaves the table as it is.
\<close>

definition visit :: "string \<Rightarrow> indegree \<times> string list \<Rightarrow> indegree \<times> string list" where
  "visit neighbor dq =
    (case map_get (fst dq) neighbor of
       None \<Rightarrow> dq
     | Some n \<Rightarrow>
        (map_set (fst dq) neighbor (n - 1),
         if n - 1 = 0 then snd dq @ [neighbor] else snd dq))"

definition positive_keys :: "indegree \<Rightarrow> string set" where
  "positive_keys d = {k. \<exists>n. map_get d k = Some n \<and> 0 < n}"

lemma map_get_map_of: "map_get m k = map_of m k"
  by (induction m) auto

lemma map_set_update: "map_set m k v = AList.update k v m"
  by (induction m) auto

lemma map_get_map_set: "map_get (map_set m k v) k' = (if k' = k then Some v else map_get m k')"
  by (simp add: map_get_map_of map_set_update update_conv')

lemma finite_positive_keys: "finite (positive_keys d)"
proof -
  have "positive_keys d \<subseteq> fst ` set d"
    by (auto simp: positive_keys_def map_get_map_of dest!: map_of_SomeD intro: rev_image_eqI)
  then show ?thesis by (rule finite_subset) simp
qed

lemma visit_measure:
  "length (snd (visit x dq)) + card (positive_keys (fst (visit x dq)))
     \<le> length (snd dq) + card (positive_keys (fst dq))"
proof (cases "map_get (fst dq) x")
  case None
  then show ?thesis by (simp add: visit_def)
next
  case (Some n)
  show ?thesis
  proof (cases "n = 1")
    case True
    have "positive_keys (map_set (fst dq) x (n - 1)) = positive_keys (fst dq) - {x}"
      using True Some by (auto simp: positive_keys_def map_get_map_set)
    moreover have "x \<in> positive_keys (fst dq)"
      using True Some by (simp add: positive_keys_def)
    ultimately have "card (positive_keys (map_set (fst dq) x (n - 1))) + 1
        = card (positive_keys (fst dq))"
      using finite_positive_keys [of "fst dq"]
      by (metis Suc_eq_plus1 card_Suc_Diff1)
    then show ?thesis using True Some by (simp add: visit_def)
  next
    case False
    have "positive_keys (map_set (fst dq) x (n - 1)) \<subseteq> positive_keys (fst dq)"
      using Some by (auto simp: positive_keys_def map_get_map_set split: if_splits)
    then have "card (positive_keys (map_set (fst dq) x (n - 1))) \<le> card (positive_keys (fst dq))"
      by (rule card_mono [OF finite_positive_keys])
    then show ?thesis using False Some by (simp add: visit_def)
  qed
qed

lemma fold_visit_measure:
  "length (snd (fold visit xs dq)) + card (positive_keys (fst (fold visit xs dq)))
     \<le> length (snd dq) + card (positive_keys (fst dq))"
proof (induction xs arbitrary: dq)
  case Nil
  then show ?case by simp
next
  case (Cons x xs)
  have "length (snd (fold visit xs (visit x dq))) + card (positive_keys (fst (fold visit xs (visit x dq))))
      \<le> length (snd (visit x dq)) + card (positive_keys (fst (visit x dq)))"
    by (rule Cons.IH)
  also have "\<dots> \<le> length (snd dq) + card (positive_keys (fst dq))"
    by (rule visit_measure)
  finally show ?case by simp
qed

text \<open>
  The \<open>while (queue.length > 0)\<close> loop of Kahn's algorithm: \<open>queue.shift()\<close>, push onto
  \<open>result\<close>, visit the neighbors.
\<close>

function kahn_loop :: "graph \<Rightarrow> indegree \<Rightarrow> string list \<Rightarrow> string list \<Rightarrow> string list" where
  "kahn_loop g d [] result = result"
| "kahn_loop g d (current # queue) result =
    (let dq = fold visit (or_empty (map_get g current)) (d, queue)
     in kahn_loop g (fst dq) (snd dq) (result @ [current]))"
  by pat_completeness auto
termination
proof (relation "measure (\<lambda>(g, d, q, r). length q + card (positive_keys d))", goal_cases)
  case 1
  then show ?case by simp
next
  case (2 g d current queue result dq)
  have "length (snd dq) + card (positive_keys (fst dq)) \<le> length queue + card (positive_keys d)"
    using fold_visit_measure [of "or_empty (map_get g current)" "(d, queue)"] 2 by simp
  then show ?case by simp
qed

text \<open>
  The partial topological output: the queue starts with the ids of in-degree 0, in
  the order of the \<open>inDegree\<close> map.
\<close>

definition kahn_order :: "registry \<Rightarrow> string list \<Rightarrow> string list" where
  "kahn_order reg pluginIds =
    (let gd = build_graph reg pluginIds
     in kahn_loop (fst gd) (snd gd)
          (map fst (filter (\<lambda>(i, degree). degree = 0) (snd gd))) [])"

definition resolveLoadOrder :: "registry \<Rightarrow> string list \<Rightarrow> js_error + string list" where
  "resolveLoadOrder reg pluginIds =
    (let result = kahn_order reg pluginIds
     in if length result \<noteq> length pluginIds
        then Inl (Error (''Circular dependency detected in plugins: '' @
                         join '', '' (filter (\<lambda>i. i \<notin> set result) pluginIds)))
        else Inr result)"

text \<open>
  The dependency edges among \<open>pluginIds\<close>, dependency first, and what it means for one
  id to stand before another in a list.
\<close>

definition dep_edges :: "registry \<Rightarrow> string list \<Rightarrow> (string \<times> string) list" where
  "dep_edges reg pluginIds =
    concat (map (\<lambda>i. map (\<lambda>depId. (depId, i))
                      (filter (\<lambda>depId. depId \<in> set pluginIds) (getDependencies reg i)))
                pluginIds)"

definition appears_before :: "'a \<Rightarrow> 'a \<Rightarrow> 'a list \<Rightarrow> bool" where
  "appears_before x y xs = (y \<in> set xs \<and> x \<in> set (takeWhile (\<lambda>z. z \<noteq> y) xs))"

section \<open>LifecycleManager\<close>

text \<open>
  The manager works on the shared singletons: the registry, the hook table and the
  settings store, and keeps its own \<open>stateSnapshots\<close> map. A snapshot is
  \<open>{state, hooks, timestamp}\<close>, the time stamp left out. The \<open>api\<close> argument of the
  source is the capability object handed to the plugin's code; the model gives that code
  the hook table and the store directly (see \<open>lifecycle_fn\<close>). An \<open>await\<close> is modelled
  as the call running to completion: no other task is interleaved.
\<close>

record snapshot =
  snap_state :: plugin_state
  snap_hooks :: nat

record lifecycle =
  lm_registry :: registry
  lm_hooks :: hook_system
  lm_settings :: settings_store
  stateSnapshots :: "(string, snapshot) jsmap"

text \<open>Calling an optional lifecycle method: \<open>if (typeof instance.f === 'function') await instance.f(api)\<close>.\<close>

definition run_method :: "lifecycle_fn option \<Rightarrow> lifecycle \<Rightarrow> lifecycle \<times> js_error option" where
  "run_method f rt =
    (case f of
       None \<Rightarrow> (rt, None)
     | Some g \<Rightarrow>
        (let r = g (lm_hooks rt, lm_settings rt)
         in (rt\<lparr>lm_hooks := fst (fst r), lm_settings := snd (fst r)\<rparr>, snd r)))"

definition emit_action :: "string \<Rightarrow> jsval \<Rightarrow> lifecycle \<Rightarrow> lifecycle" where
  "emit_action hookName data rt = rt\<lparr>lm_hooks := action hookName data (lm_hooks rt)\<rparr>"

definition plugin_data :: "string \<Rightarrow> jsval" where
  "plugin_data pluginId = JObj [(''pluginId'', JStr pluginId)]"

definition error_data :: "string \<Rightarrow> js_error \<Rightarrow> jsval" where
  "error_data pluginId err = JObj [(''pluginId'', JStr pluginId), (''error'', error_value err)]"

text \<open>
  \<open>this.registry.setError(pluginId, error)\<close> as the manager calls it in a \<open>catch\<close> block:
  an error thrown there leaves the async method, so the method rejects with it instead
  of returning \<open>false\<close>.
\<close>

definition catch_setError :: "string \<Rightarrow> js_error \<Rightarrow> lifecycle \<Rightarrow> lifecycle \<times> js_error option" where
  "catch_setError pluginId err rt =
    (let se = setError pluginId err (lm_registry rt)
     in (rt\<lparr>lm_registry := fst se\<rparr>, snd se))"

definition registerPluginHooks :: "string \<Rightarrow> (string \<times> handler_fn) list \<Rightarrow> hook_system \<Rightarrow> hook_system" where
  "registerPluginHooks pluginId hks hs =
    fold (\<lambda>(hookName, h) t.
            fst (register hookName h
                  \<lparr>opt_priority = Some 50, opt_once = None, opt_plugin = Some pluginId\<rparr> t))
         hks hs"

definition takeSnapshot :: "string \<Rightarrow> lifecycle \<Rightarrow> lifecycle" where
  "takeSnapshot pluginId rt =
    rt\<lparr>stateSnapshots := map_set (stateSnapshots rt) pluginId
          \<lparr>snap_state = getState (lm_registry rt) pluginId,
           snap_hooks = length (getPluginHooks (lm_hooks rt) pluginId)\<rparr>\<rparr>"

definition rollback :: "string \<Rightarrow> lifecycle \<Rightarrow> lifecycle" where
  "rollback pluginId rt =
    (case map_get (stateSnapshots rt) pluginId of
       None \<Rightarrow> rt
     | Some snap \<Rightarrow>
        rt\<lparr>lm_hooks := unregisterPlugin pluginId (lm_hooks rt),
           lm_registry := setState pluginId (snap_state snap) (lm_registry rt),
           stateSnapshots := map_delete (stateSnapshots rt) pluginId\<rparr>)"


text \<open>The \<open>try\<close> block of \<open>startPlugin\<close> and its \<open>catch\<close>.\<close>

definition start_attempt :: "string \<Rightarrow> manifest \<Rightarrow> lifecycle \<Rightarrow> lifecycle \<times> (js_error + bool)" where
  "start_attempt pluginId inst rt =
    (let rt1 = takeSnapshot pluginId rt;
         rt2 = rt1\<lparr>lm_registry := setState pluginId STARTING (lm_registry rt1)\<rparr>;
         rt3 = emit_action ''plugin:before-enable'' (plugin_data pluginId) rt2;
         rt4 = (case m_hooks inst of
                  None \<Rightarrow> rt3
                | Some hks \<Rightarrow> rt3\<lparr>lm_hooks := registerPluginHooks pluginId hks (lm_hooks rt3)\<rparr>);
         rt5 = (case m_settings inst of
                  None \<Rightarrow> rt4
                | Some sch \<Rightarrow> rt4\<lparr>lm_settings := registerSchema pluginId sch (lm_settings rt4)\<rparr>);
         r = run_method (m_start inst) rt5
     in case snd r of
          None \<Rightarrow>
            (let rt6 = (fst r)\<lparr>lm_registry :=
                          clearError pluginId (setState pluginId ACTIVE (lm_registry (fst r)))\<rparr>
             in (emit_action ''plugin:enabled'' (plugin_data pluginId) rt6, Inr True))
        | Some err \<Rightarrow>
            (let rt6 = rollback pluginId (fst r);
                 c = catch_setError pluginId err rt6
             in case snd c of
                  Some e \<Rightarrow> (fst c, Inl e)
                | None \<Rightarrow> (emit_action ''plugin:error'' (error_data pluginId err) (fst c), Inr False)))"

definition startPlugin :: "string \<Rightarrow> lifecycle \<Rightarrow> lifecycle \<times> (js_error + bool)" where
  "startPlugin pluginId rt =
    (let state = getState (lm_registry rt) pluginId in
     if state = ACTIVE then (rt, Inr True)
     else if state \<noteq> LOADED \<and> state \<noteq> STOPPED
     then (rt, Inl (Error (''Plugin '' @ pluginId @ '' must be in LOADED or STOPPED state to start (current: ''
                           @ state_name state @ '')'')))
     else if \<not> fst (checkDependencies (lm_registry rt) pluginId)
     then (rt, Inl (Error (''Cannot start '' @ pluginId @ '': missing dependencies ''
                           @ join '', '' (snd (checkDependencies (lm_registry rt) pluginId)))))
     else if fst (checkConflicts (lm_registry rt) pluginId)
     then (rt, Inl (Error (''Cannot start '' @ pluginId @ '': conflicts with ''
                           @ join '', '' (snd (checkConflicts (lm_registry rt) pluginId)))))
     else case getInstance (lm_registry rt) pluginId of
            None \<Rightarrow> (rt, Inl (Error (''Plugin instance not found: '' @ pluginId)))
          | Some inst \<Rightarrow> start_attempt pluginId inst rt)"

definition stop_attempt :: "string \<Rightarrow> manifest \<Rightarrow> lifecycle \<Rightarrow> lifecycle \<times> (js_error + bool)" where
  "stop_attempt pluginId inst rt =
    (let rt1 = rt\<lparr>lm_registry := setState pluginId STOPPING (lm_registry rt)\<rparr>;
         rt2 = emit_action ''plugin:before-disable'' (plugin_data pluginId) rt1;
         r = run_method (m_stop inst) rt2
     in case snd r of
          None \<Rightarrow>
            (let rt3 = (fst r)\<lparr>lm_hooks := unregisterPlugin pluginId (lm_hooks (fst r))\<rparr>;
                 rt4 = rt3\<lparr>lm_registry := setState pluginId STOPPED (lm_registry rt3)\<rparr>
             in (emit_action ''plugin:disabled'' (plugin_data pluginId) rt4, Inr True))
        | Some err \<Rightarrow>
            (let c = catch_setError pluginId err (fst r)
             in case snd c of
                  Some e \<Rightarrow> (fst c, Inl e)
                | None \<Rightarrow> (fst c, Inr False)))"

definition stopPlugin :: "string \<Rightarrow> lifecycle \<Rightarrow> lifecycle \<times> (js_error + bool)" where
  "stopPlugin pluginId rt =
    (let state = getState (lm_registry rt) pluginId in
     if state = STOPPED then (rt, Inr True)
     else if state \<noteq> ACTIVE
     then (rt, Inl (Error (''Plugin '' @ pluginId @ '' must be in ACTIVE state to stop (current: ''
                           @ state_name state @ '')'')))
     else
       (let activeDependents =
              filter (\<lambda>depId. getState (lm_registry rt) depId = ACTIVE)
                     (getDependents (lm_registry rt) pluginId)
        in if activeDependents \<noteq> []
           then (rt, Inl (Error (''Cannot stop '' @ pluginId @ '': required by ''
                                 @ join '', '' activeDependents)))
           else case getInstance (lm_registry rt) pluginId of
                  None \<Rightarrow> (rt, Inl (Error (''Plugin instance not found: '' @ pluginId)))
                | Some inst \<Rightarrow> stop_attempt pluginId inst rt))"

section \<open>FrameworkCore: reconciliation\<close>






text \<open>
  A storage-change notification for the key \<open>settings\<close>: \<open>{newValue, oldValue}\<close>, each a
  stored settings document or absent. Of a stored document only \<open>plugins\<close> is read; the
  data of a plugin may be \<open>null\<close> (\<open>None\<close>).
\<close>

type_synonym stored_plugins = "(string, plugin_entry option) jsmap"

record settings_change =
  newValue :: "stored_plugins option option"
  oldValue :: "stored_plugins option option"










section \<open>IPCManager\<close>

text \<open>
  The broker's own fields are \<open>destroyed\<close>, \<open>requestId\<close>, \<open>pendingRequests\<close>, \<open>handlers\<close>,
  \<open>runtime\<close> (present or \<open>null\<close>) and \<open>messageListener\<close> (set or \<open>null\<close>). What the source
  keeps in closures and in the host is made explicit beside them:
  \<^item> \<open>listener_attached\<close>: the host's \<open>onMessage\<close> holds the broker's listener;
  \<^item> \<open>timers\<close>: the armed timeouts. A request arms exactly one, so a timer is numbered
    by its request id; its callback knows the request's action;
  \<^item> \<open>settled\<close>: the promises of \<open>request\<close> that were resolved or rejected, by request
    id. A promise settles once: a later \<open>resolve\<close> or \<open>reject\<close> does nothing;
  \<^item> \<open>in_transit\<close>: the requests whose \<open>sendMessage\<close> promise is still open, so that
    its \<open>.catch\<close> continuation may still run;
  \<^item> \<open>sent\<close> and \<open>replies\<close>: the envelopes handed to \<open>sendMessage\<close> and to
    \<open>sendResponse\<close>.
  A pending-request record \<open>{resolve, reject, timeout, action, timestamp}\<close> is
  represented by its action: the continuations and the timer are those of its id.
  What a send or a handler fails with is an error object, given by its message.
\<close>

datatype settlement = Resolved jsval | Rejected string

datatype outbound =
    OutRequest "nat option" string jsval nat
  | OutEvent "nat option" string jsval
  | OutBroadcast string jsval

datatype inbound =
    InRequest string jsval nat
  | InResponse nat bool jsval "string option"
  | InEvent string jsval
  | InBroadcast string jsval
  | InOther

datatype reply = Reply bool jsval "string option" "nat option"

type_synonym ipc_handler = "jsval \<Rightarrow> outcome"

record ipc =
  ipc_destroyed :: bool
  requestId :: nat
  pendingRequests :: "(nat, string) jsmap"
  handlers :: "(string, ipc_handler) jsmap"
  runtime_present :: bool
  messageListener :: bool
  listener_attached :: bool
  timers :: "(nat, string \<times> nat) jsmap"
  settled :: "(nat \<times> settlement) list"
  in_transit :: "nat list"
  sent :: "outbound list"
  replies :: "reply list"

text \<open>The constructor: \<open>_setupListener\<close> installs the listener when a runtime exists.\<close>

definition ipc_initial :: "bool \<Rightarrow> ipc" where
  "ipc_initial rp =
    \<lparr>ipc_destroyed = False, requestId = 0, pendingRequests = [], handlers = [],
     runtime_present = rp, messageListener = rp, listener_attached = rp, timers = [],
     settled = [], in_transit = [], sent = [], replies = []\<rparr>"

definition settle :: "nat \<Rightarrow> settlement \<Rightarrow> ipc \<Rightarrow> ipc" where
  "settle rid res s =
    (if rid \<in> fst ` set (settled s) then s else s\<lparr>settled := settled s @ [(rid, res)]\<rparr>)"

text \<open>\<open>String.prototype.includes\<close>.\<close>

fun str_includes :: "string \<Rightarrow> string \<Rightarrow> bool" where
  "str_includes [] sub = (sub = [])"
| "str_includes (c # cs) sub = (take (length sub) (c # cs) = sub \<or> str_includes cs sub)"

text \<open>
  \<open>sendMessage\<close> either throws at once or returns a promise; a missing runtime makes
  the call itself throw a TypeError.
\<close>

datatype send_outcome = SendAsync | SendThrows string

record request_options =
  ro_timeout :: "nat option"
  ro_target :: "nat option"

text \<open>
  \<open>request(action, data, options)\<close>. The result is \<open>Inl\<close> when the call fails at once
  (the async function throws before creating the promise), else the id of the request
  whose promise was created. The second \<open>destroyed\<close> check inside the promise executor
  cannot differ from the first, nothing runs in between.
\<close>

definition request :: "string \<Rightarrow> jsval \<Rightarrow> request_options \<Rightarrow> send_outcome \<Rightarrow> ipc
    \<Rightarrow> ipc \<times> (js_error + nat)" where
  "request act data options snd_res s =
    (if ipc_destroyed s then (s, Inl (Error ''IPC destroyed - cannot send request''))
     else
       (let rid = requestId s + 1;
            tmo = (case ro_timeout options of None \<Rightarrow> 5000 | Some t \<Rightarrow> t);
            s1 = s\<lparr>requestId := rid,
                    timers := map_set (timers s) rid (act, tmo),
                    pendingRequests := map_set (pendingRequests s) rid act\<rparr>;
            thrown = (if \<not> runtime_present s
                      then Some ''TypeError: Cannot read properties of null''
                      else case snd_res of SendThrows m \<Rightarrow> Some m | SendAsync \<Rightarrow> None)
        in case thrown of
             Some m \<Rightarrow>
               (settle rid (Rejected m)
                  (s1\<lparr>timers := map_delete (timers s1) rid,
                       pendingRequests := map_delete (pendingRequests s1) rid\<rparr>),
                Inr rid)
           | None \<Rightarrow>
               (s1\<lparr>sent := sent s1 @ [OutRequest (ro_target options) act data rid],
                    in_transit := in_transit s1 @ [rid]\<rparr>,
                Inr rid)))"

text \<open>The \<open>.catch\<close> continuation of \<open>sendMessage\<close>, for a request still in transit.\<close>

definition send_failed :: "nat \<Rightarrow> string \<Rightarrow> ipc \<Rightarrow> ipc" where
  "send_failed rid m s =
    (if rid \<notin> set (in_transit s) then s
     else settle rid
            (Rejected (if str_includes m ''Extension context invalidated''
                          \<or> str_includes m ''Receiving end does not exist''
                       then ''Context no longer available'' else m))
            (s\<lparr>in_transit := removeAll rid (in_transit s),
               timers := map_delete (timers s) rid,
               pendingRequests := map_delete (pendingRequests s) rid\<rparr>))"

text \<open>The timeout callback; it runs only while its timer is armed.\<close>

definition timeout_fires :: "nat \<Rightarrow> ipc \<Rightarrow> ipc" where
  "timeout_fires rid s =
    (case map_get (timers s) rid of
       None \<Rightarrow> s
     | Some ta \<Rightarrow>
         settle rid (Rejected (''Request timeout: '' @ fst ta))
           (s\<lparr>timers := map_delete (timers s) rid,
              pendingRequests := map_delete (pendingRequests s) rid\<rparr>))"

definition handleResponse :: "nat \<Rightarrow> bool \<Rightarrow> jsval \<Rightarrow> string option \<Rightarrow> ipc \<Rightarrow> ipc" where
  "handleResponse rid success data err s =
    (case map_get (pendingRequests s) rid of
       None \<Rightarrow> s
     | Some pending \<Rightarrow>
        settle rid
          (if success then Resolved data
           else Rejected (case err of
                            None \<Rightarrow> ''Request failed''
                          | Some m \<Rightarrow> if m = [] then ''Request failed'' else m))
          (s\<lparr>timers := map_delete (timers s) rid,
             pendingRequests := map_delete (pendingRequests s) rid\<rparr>))"

definition handleRequest :: "string \<Rightarrow> jsval \<Rightarrow> nat \<Rightarrow> ipc \<Rightarrow> ipc" where
  "handleRequest act data rid s =
    (let r = (case map_get (handlers s) act of
                None \<Rightarrow> Reply False JUndefined (Some (''No handler for action: '' @ act)) None
              | Some h \<Rightarrow>
                 (case h data of
                    Returned v \<Rightarrow> Reply True v None (Some rid)
                  | Threw m \<Rightarrow> Reply False JUndefined (Some m) (Some rid)))
     in if ipc_destroyed s then s else s\<lparr>replies := replies s @ [r]\<rparr>)"

text \<open>
  The listener as the host invokes it. An EVENT or BROADCAST runs the handler of that
  name; a handler is modelled by its result only, so the state is unchanged.
\<close>

definition onMessage :: "inbound \<Rightarrow> ipc \<Rightarrow> ipc" where
  "onMessage m s =
    (if \<not> listener_attached s then s
     else if ipc_destroyed s then s
     else case m of
            InRequest act data rid \<Rightarrow> handleRequest act data rid s
          | InResponse rid success data err \<Rightarrow> handleResponse rid success data err s
          | InEvent ev data \<Rightarrow> s
          | InBroadcast ev data \<Rightarrow> s
          | InOther \<Rightarrow> s)"

definition ipc_on :: "string \<Rightarrow> ipc_handler \<Rightarrow> ipc \<Rightarrow> ipc" where
  "ipc_on actionOrEvent h s = s\<lparr>handlers := map_set (handlers s) actionOrEvent h\<rparr>"

definition ipc_off :: "string \<Rightarrow> ipc \<Rightarrow> ipc" where
  "ipc_off actionOrEvent s = s\<lparr>handlers := map_delete (handlers s) actionOrEvent\<rparr>"

text \<open>
  \<open>sendEvent\<close> and \<open>broadcast\<close> catch every failure of the send; the envelope is
  recorded when it was handed to a runtime that took it.
\<close>

definition sendEvent :: "string \<Rightarrow> jsval \<Rightarrow> nat option \<Rightarrow> send_outcome \<Rightarrow> ipc \<Rightarrow> ipc" where
  "sendEvent ev data target snd_res s =
    (if ipc_destroyed s then s
     else if runtime_present s \<and> snd_res = SendAsync
     then s\<lparr>sent := sent s @ [OutEvent target ev data]\<rparr>
     else s)"

definition broadcast :: "string \<Rightarrow> jsval \<Rightarrow> send_outcome \<Rightarrow> ipc \<Rightarrow> ipc" where
  "broadcast ev data snd_res s =
    (if ipc_destroyed s then s
     else if runtime_present s \<and> snd_res = SendAsync
     then s\<lparr>sent := sent s @ [OutBroadcast ev data]\<rparr>
     else s)"

text \<open>
  \<open>destroy()\<close>. \<open>remove_throws\<close> says whether the host's \<open>removeListener\<close> threw (the
  source swallows that: the context may already be invalid); the broker drops its
  reference to the listener either way. \<open>reject_pending\<close> is the body of
  \<open>pendingRequests.forEach\<close>: \<open>clearTimeout(pending.timeout)\<close>, then \<open>pending.reject\<close>.
\<close>

definition reject_pending :: "nat \<times> string \<Rightarrow> ipc \<Rightarrow> ipc" where
  "reject_pending p t =
    settle (fst p) (Rejected ''IPC destroyed - context ending'')
      (t\<lparr>timers := map_delete (timers t) (fst p)\<rparr>)"

definition destroy :: "bool \<Rightarrow> ipc \<Rightarrow> ipc" where
  "destroy remove_throws s =
    (if ipc_destroyed s then s
     else
       (let s1 = s\<lparr>ipc_destroyed := True\<rparr>;
            s2 = fold reject_pending (pendingRequests s1) s1;
            s3 = s2\<lparr>pendingRequests := [], handlers := []\<rparr>
        in if messageListener s3 \<and> runtime_present s3
           then s3\<lparr>listener_attached := (remove_throws \<and> listener_attached s3),
                   messageListener := False\<rparr>
           else s3))"

text \<open>Everything that can happen to a broker, and a run of such events.\<close>

datatype ipc_event =
    EvRequest string jsval request_options send_outcome
  | EvSendFailed nat string
  | EvTimeout nat
  | EvMessage inbound
  | EvOn string ipc_handler
  | EvOff string
  | EvSendEvent string jsval "nat option" send_outcome
  | EvBroadcast string jsval send_outcome
  | EvDestroy bool

fun ipc_step :: "ipc_event \<Rightarrow> ipc \<Rightarrow> ipc" where
  "ipc_step (EvRequest act data options snd_res) s = fst (request act data options snd_res s)"
| "ipc_step (EvSendFailed rid m) s = send_failed rid m s"
| "ipc_step (EvTimeout rid) s = timeout_fires rid s"
| "ipc_step (EvMessage m) s = onMessage m s"
| "ipc_step (EvOn a h) s = ipc_on a h s"
| "ipc_step (EvOff a) s = ipc_off a s"
| "ipc_step (EvSendEvent ev data target snd_res) s = sendEvent ev data target snd_res s"
| "ipc_step (EvBroadcast ev data snd_res) s = broadcast ev data snd_res s"
| "ipc_step (EvDestroy remove_throws) s = destroy remove_throws s"

definition ipc_run :: "ipc_event list \<Rightarrow> ipc \<Rightarrow> ipc" where
  "ipc_run evs s = fold ipc_step evs s"

text \<open>
  The invariant of a broker: an armed timer belongs to a pending request; a pending
  request is not settled; the requests issued (numbered from 1 to \<open>requestId\<close>) are
  exactly the pending and the settled ones; a destroyed broker has nothing pending and
  no listener reference; a live broker's attached listener is the one it holds.
\<close>

definition inv_sets :: "nat set \<Rightarrow> nat set \<Rightarrow> nat set \<Rightarrow> nat set \<Rightarrow> nat \<Rightarrow> bool" where
  "inv_sets T P S I n \<longleftrightarrow> T \<subseteq> P \<and> P \<inter> S = {} \<and> P \<union> S = {1..n} \<and> I \<subseteq> {1..n}"

definition ipc_inv :: "ipc \<Rightarrow> bool" where
  "ipc_inv s \<longleftrightarrow>
     inv_sets (fst ` set (timers s)) (fst ` set (pendingRequests s)) (fst ` set (settled s))
       (set (in_transit s)) (requestId s)
     \<and> (ipc_destroyed s \<longrightarrow> pendingRequests s = [] \<and> \<not> messageListener s)
     \<and> (messageListener s \<longrightarrow> runtime_present s)
     \<and> (\<not> ipc_destroyed s \<and> listener_attached s \<longrightarrow> messageListener s)"

section \<open>Notions used in the proofs\<close>

subsection \<open>Notions used to state the loop invariant of the load-order computation\<close>

text \<open>
  For an edge list \<open>E\<close> (dependency first) and a set \<open>R\<close> of ids already output:
  \<open>preds_done E R n\<close> says every edge into \<open>n\<close> starts in \<open>R\<close>; \<open>rem_indeg E R n\<close>
  counts the edges into \<open>n\<close> that do not. \<open>kahn_inv\<close> is the invariant of the
  \<open>while\<close> loop, \<open>kahn_post\<close> what it leaves when the queue is empty, \<open>graph_ok\<close> ties
  the adjacency map to the edge list, and \<open>add_edges\<close> is the edge-building loop run
  over an explicit list of edges.
\<close>

definition preds_done :: "(string \<times> string) list \<Rightarrow> string set \<Rightarrow> string \<Rightarrow> bool" where
  "preds_done E R n = (\<forall>e\<in>set E. snd e = n \<longrightarrow> fst e \<in> R)"

definition rem_indeg :: "(string \<times> string) list \<Rightarrow> string set \<Rightarrow> string \<Rightarrow> int" where
  "rem_indeg E R n = int (length (filter (\<lambda>e. snd e = n \<and> fst e \<notin> R) E))"

definition kahn_inv :: "(string \<times> string) list \<Rightarrow> string set \<Rightarrow> indegree \<Rightarrow> string list
    \<Rightarrow> string list \<Rightarrow> bool" where
  "kahn_inv E K d q r \<longleftrightarrow>
     distinct (r @ q) \<and> set r \<union> set q \<subseteq> K
     \<and> (\<forall>n\<in>K. map_get d n = Some (rem_indeg E (set r) n))
     \<and> (\<forall>n\<in>K. (n \<in> set r \<union> set q) = preds_done E (set r) n)
     \<and> (\<forall>e\<in>set E. snd e \<in> set r \<longrightarrow> fst e \<in> set (takeWhile (\<lambda>z. z \<noteq> snd e) r))"

definition graph_ok :: "(string \<times> string) list \<Rightarrow> string set \<Rightarrow> graph \<Rightarrow> bool" where
  "graph_ok E K g \<longleftrightarrow>
     (\<forall>c\<in>K. or_empty (map_get g c) = map snd (filter (\<lambda>e. fst e = c) E))
     \<and> (\<forall>e\<in>set E. fst e \<in> K \<and> snd e \<in> K)"

definition add_edges :: "string list \<Rightarrow> (string \<times> string) list \<Rightarrow> graph \<times> indegree \<Rightarrow> graph \<times> indegree" where
  "add_edges ids es gd = fold (\<lambda>e. add_edge ids (snd e) (fst e)) es gd"

definition kahn_post :: "(string \<times> string) list \<Rightarrow> string set \<Rightarrow> string list \<Rightarrow> bool" where
  "kahn_post E K res \<longleftrightarrow>
     distinct res \<and> set res \<subseteq> K
     \<and> (\<forall>n\<in>K. (n \<in> set res) = preds_done E (set res) n)
     \<and> (\<forall>e\<in>set E. snd e \<in> set res \<longrightarrow> fst e \<in> set (takeWhile (\<lambda>z. z \<noteq> snd e) res))"

subsection \<open>What a reconcile step keeps\<close>



section \<open>Scenarios\<close>

subsection \<open>A scenario: three handlers with priorities 10, 10, 20\<close>

definition h_inc :: handler_fn where
  "h_inc d = (Returned (case d of JNum n \<Rightarrow> JNum (n + 1) | _ \<Rightarrow> d), False)"

definition h_tenfold :: handler_fn where
  "h_tenfold d = (Returned (case d of JNum n \<Rightarrow> JNum (n * 10) | _ \<Rightarrow> d), False)"

definition h_plus100 :: handler_fn where
  "h_plus100 d = (Returned (case d of JNum n \<Rightarrow> JNum (n + 100) | _ \<Rightarrow> d), False)"

definition three_handlers :: hook_system where
  "three_handlers =
    fst (register ''f'' h_plus100 (no_options\<lparr>opt_priority := Some 20\<rparr>)
      (fst (register ''f'' h_tenfold (no_options\<lparr>opt_priority := Some 10\<rparr>)
        (fst (register ''f'' h_inc (no_options\<lparr>opt_priority := Some 10\<rparr>) hooks_empty)))))"

subsection \<open>A scenario: the schema \<open>{x: {type: "number", default: 5}}\<close>\<close>

definition schema_px :: schema where
  "schema_px = [(''x'', \<lparr>sd_type = Some ''number'', sd_default = JNum 5, sd_min = None,
                         sd_max = None, sd_enum = None, sd_validator = None\<rparr>)]"

subsection \<open>Scenarios for the registry and the load order\<close>

text \<open>
  \<open>plain_manifest i deps\<close> is the manifest \<open>{id: i, dependencies: deps}\<close>.
  \<open>register_all\<close> registers manifests one after the other, as \<open>discoverPlugins\<close> does.
  \<open>registry_ab\<close> holds \<open>{id: "a", dependencies: ["b"]}\<close> and \<open>{id: "b", dependencies: []}\<close>;
  in \<open>registry_cycle\<close>, \<open>a\<close> and \<open>b\<close> depend on each other, \<open>c\<close> on nothing, \<open>d\<close> on \<open>c\<close>
  and \<open>e\<close> on \<open>a\<close>.
\<close>

definition plain_manifest :: "string \<Rightarrow> string list \<Rightarrow> manifest" where
  "plain_manifest i deps =
    \<lparr>ident = i, dependencies = Some deps, optionalDependencies = None, conflicts = None,
     m_hooks = None, m_settings = None, m_init = None, m_start = None, m_stop = None,
     m_destroy = None\<rparr>"

definition register_all :: "manifest list \<Rightarrow> registry \<Rightarrow> registry" where
  "register_all ms reg =
    fold (\<lambda>m r. case registry_register m r of Inl e \<Rightarrow> r | Inr r' \<Rightarrow> r') ms reg"

definition registry_ab :: registry where
  "registry_ab = register_all [plain_manifest ''a'' [''b''], plain_manifest ''b'' []] registry_empty"

definition registry_cycle :: registry where
  "registry_cycle = register_all [plain_manifest ''a'' [''b''], plain_manifest ''b'' [''a''],
      plain_manifest ''c'' [], plain_manifest ''d'' [''c''], plain_manifest ''e'' [''a'']]
      registry_empty"

subsection \<open>Scenarios for the lifecycle\<close>

text \<open>
  The plugin \<open>p\<close> declares two hook handlers and has \<open>start\<close> and \<open>stop\<close> methods that
  throw \<open>boom\<close> without touching anything. In \<open>loaded_p\<close> it is LOADED and owns no hook
  registration; in \<open>active_p\<close> it is ACTIVE and owns one. \<open>hook_owners\<close> lists, per hook
  name, the owners of the registered handlers.
\<close>

definition h_noop :: handler_fn where
  "h_noop d = (Returned JUndefined, False)"

definition throwing :: lifecycle_fn where
  "throwing w = (w, Some (Error ''boom''))"

definition manifest_p :: manifest where
  "manifest_p = (plain_manifest ''p'' [])
     \<lparr>m_hooks := Some [(''dom:ready'', h_noop), (''dom:mutated'', h_noop)],
      m_start := Some throwing, m_stop := Some throwing\<rparr>"

definition loaded_p :: lifecycle where
  "loaded_p =
    \<lparr>lm_registry = setState ''p'' LOADED
        (setInstance ''p'' manifest_p (register_all [manifest_p] registry_empty)),
     lm_hooks = hooks_empty, lm_settings = settings_initial, stateSnapshots = []\<rparr>"

definition active_p :: lifecycle where
  "active_p =
    \<lparr>lm_registry = setState ''p'' ACTIVE
        (setInstance ''p'' manifest_p (register_all [manifest_p] registry_empty)),
     lm_hooks = registerPluginHooks ''p'' [(''dom:ready'', h_noop)] hooks_empty,
     lm_settings = settings_initial, stateSnapshots = []\<rparr>"

definition hook_owners :: "hook_system \<Rightarrow> (string \<times> string option list) list" where
  "hook_owners hs = map (\<lambda>(n, es). (n, map plugin es)) (hooks hs)"

subsection \<open>A scenario: a storage echo during an enable command\<close>



subsection \<open>A scenario: a module with a settings schema is enabled elsewhere\<close>






subsection \<open>A scenario: two requests in flight\<close>

text \<open>
  On a fresh broker with a runtime, a handler for \<open>ping\<close> is registered and two
  requests are issued, the first with \<open>{timeout: 50}\<close>; neither has been answered.
\<close>

definition two_requests :: "ipc_event list" where
  "two_requests =
    [EvOn ''ping'' (\<lambda>d. Returned d),
     EvRequest ''settings:get'' JNull \<lparr>ro_timeout = Some 50, ro_target = None\<rparr> SendAsync,
     EvRequest ''ping'' JNull \<lparr>ro_timeout = None, ro_target = None\<rparr> SendAsync]"

section \<open>Properties of the HookSystem\<close>

subsection \<open>Emission over an empty handler set\<close>

lemma emit_run_no_handlers:
  assumes "map_get (hooks hs) hookName = None \<or> map_get (hooks hs) hookName = Some []"
  shows "emit_run hookName d options hs =
    \<lparr>currentData = (if d = JUndefined then JNull else d), cancelled = False,
     handlersToRemove = [], calls = []\<rparr>"
  using assms by (auto simp: emit_run_def Let_def)

text \<open>
  Claim C10, as the code has it. For a hook name with no handlers (no array, or an empty
  one) and any options, \<open>emit\<close> leaves the table alone, invokes nothing and returns
  \<open>{data, cancelled: false}\<close>, where \<open>data\<close> is the input, except that \<open>undefined\<close> has
  been replaced by the parameter's default \<open>null\<close>.
\<close>

theorem emit_no_handlers:
  assumes "map_get (hooks hs) hookName = None \<or> map_get (hooks hs) hookName = Some []"
  shows "emit hookName d options hs =
    (hs, (if d = JUndefined then JNull else d, False))"
  by (simp add: emit_def emit_run_no_handlers [OF assms])

theorem emit_no_handlers_witness:
  "(map_get (hooks hooks_empty) ''dom:ready'' = None
      \<or> map_get (hooks hooks_empty) ''dom:ready'' = Some [])
   \<and> emit ''dom:ready'' (JNum 7) \<lparr>parallel = Some False, cancelable = Some True\<rparr> hooks_empty
       = (hooks_empty, (JNum 7, False))"
  using emit_no_handlers [of hooks_empty "''dom:ready''" "JNum 7"
      "\<lparr>parallel = Some False, cancelable = Some True\<rparr>"]
  by (simp add: hooks_empty_def)

text \<open>
  The claim as stated (the input data comes back unchanged for every data value) fails
  for \<open>undefined\<close>: no handler is registered, and the data returned is \<open>null\<close>.
\<close>

theorem emit_undefined_counterexample:
  "map_get (hooks hooks_empty) ''dom:ready'' = None
   \<and> snd (emit ''dom:ready'' JUndefined \<lparr>parallel = None, cancelable = None\<rparr> hooks_empty)
       = (JNull, False)
   \<and> snd (emit ''dom:ready'' JUndefined \<lparr>parallel = None, cancelable = None\<rparr> hooks_empty)
       \<noteq> (JUndefined, False)"
  by (simp add: emit_def emit_run_def hooks_empty_def Let_def)

subsection \<open>Sequential emission inside one priority band\<close>

text \<open>
  Claim C5 at a concrete input. Three handlers are registered on the hook \<open>f\<close> with
  priorities 10, 10, 20, in that order: the first adds one, the second multiplies by
  ten, the third adds a hundred. The hook is emitted with \<open>parallel: false\<close> on the
  data 1. The handlers run in the order 0, 1, 2 (band 10 in registration order, then
  band 20), but the second handler of band 10 is handed the data the band started with
  (1), not the first handler's return value (2); the emission returns 110, where a chain
  through every handler gives 120.
\<close>

theorem emit_sequential_band_shares_context:
  "calls (emit_run ''f'' (JNum 1) \<lparr>parallel = Some False, cancelable = None\<rparr> three_handlers)
     = [(0, JNum 1), (1, JNum 1), (2, JNum 10)]
   \<and> fst (h_inc (JNum 1)) = Returned (JNum 2)
   \<and> snd (emit ''f'' (JNum 1) \<lparr>parallel = Some False, cancelable = None\<rparr> three_handlers)
     = (JNum 110, False)"
  by (simp add: three_handlers_def register_def no_options_def hooks_empty_def map_has_def
      truthy_plugin_def emit_def emit_run_def groupByPriority_def h_inc_def h_tenfold_def
      h_plus100_def Let_def)

section \<open>Properties of the SettingsStore\<close>

lemma validate_after_register:
  "validate (registerSchema ''p'' schema_px st) ''p'' ''x'' v = (typeof v = ''number'')"
  by (cases v) (simp_all add: validate_def registerSchema_def schema_px_def map_get_map_set Let_def)

lemma settings_set_validated:
  "validate st pluginId key v \<Longrightarrow> pluginId \<noteq> ''core'' \<Longrightarrow> key \<noteq> ''enabled''
   \<Longrightarrow> map_get (plugins (doc st)) pluginId = Some pe \<Longrightarrow> settings pe = Some m
   \<Longrightarrow> \<exists>hs'. settings_set pluginId key v False (hs, st)
         = Inr (hs', st\<lparr>doc := (doc st)\<lparr>plugins := map_set (plugins (doc st)) pluginId
                                             (pe\<lparr>settings := Some (map_set m key v)\<rparr>)\<rparr>,
                        persistQueued := Suc (persistQueued st)\<rparr>)"
  by (simp add: settings_set_def Let_def)

text \<open>
  Claim C8. Whatever the store and the hook table hold before, after
  \<open>registerSchema("p", {x: {type: "number", default: 5}})\<close> the call \<open>set("p", "x", 10)\<close>
  succeeds and \<open>get("p", "x")\<close> is then 10; \<open>set("p", "x", "oops")\<close> on the resulting
  state throws \<open>Invalid value for p.x\<close>, the error of a failed validation. The throw is
  the first statement of \<open>set\<close>, so the state it leaves is the state \<open>w\<close> it found, in
  which \<open>x\<close> is 10.
\<close>

theorem set_then_get_scenario:
  "\<exists>w. settings_set ''p'' ''x'' (JNum 10) False (hs, registerSchema ''p'' schema_px st) = Inr w
       \<and> settings_get (snd w) ''p'' ''x'' = JNum 10
       \<and> settings_set ''p'' ''x'' (JStr ''oops'') False w = Inl (Error ''Invalid value for p.x'')"
proof -
  let ?st1 = "registerSchema ''p'' schema_px st"
  have "\<exists>pe m. map_get (plugins (doc ?st1)) ''p'' = Some pe \<and> settings pe = Some m"
    by (cases "map_get (plugins (doc st)) ''p''")
       (simp_all add: registerSchema_def Let_def map_get_map_set)
  then obtain pe m where pe: "map_get (plugins (doc ?st1)) ''p'' = Some pe" "settings pe = Some m"
    by blast
  have v: "validate ?st1 ''p'' ''x'' (JNum 10)" by (simp add: validate_after_register)
  from settings_set_validated [OF v _ _ pe, of hs] obtain hs' where
    s: "settings_set ''p'' ''x'' (JNum 10) False (hs, ?st1)
         = Inr (hs', ?st1\<lparr>doc := (doc ?st1)\<lparr>plugins := map_set (plugins (doc ?st1)) ''p''
                                             (pe\<lparr>settings := Some (map_set m ''x'' (JNum 10))\<rparr>)\<rparr>,
                        persistQueued := Suc (persistQueued ?st1)\<rparr>)" (is "_ = Inr (hs', ?st2)")
    by auto
  have g: "settings_get ?st2 ''p'' ''x'' = JNum 10"
    by (simp add: settings_get_def map_get_map_set or_undefined_def)
  have sch: "schemas ?st2 = schemas ?st1" by simp
  have "\<not> validate ?st2 ''p'' ''x'' (JStr ''oops'')"
    using validate_after_register [of st "JStr ''oops''"]
    by (simp add: validate_def)
  then have "settings_set ''p'' ''x'' (JStr ''oops'') False (hs', ?st2) = Inl (Error ''Invalid value for p.x'')"
    by (simp add: settings_set_def Let_def)
  then show ?thesis using s g by auto
qed

theorem set_then_get_scenario_witness:
  "\<exists>w. settings_set ''p'' ''x'' (JNum 10) False
          (hooks_empty, registerSchema ''p'' schema_px settings_initial) = Inr w
       \<and> settings_get (snd w) ''p'' ''x'' = JNum 10
       \<and> settings_set ''p'' ''x'' (JStr ''oops'') False w = Inl (Error ''Invalid value for p.x'')"
  by (rule set_then_get_scenario)

section \<open>Properties of the load order\<close>

subsection \<open>The neighbor loop\<close>

lemma visit_fold_result:
  assumes "\<forall>n\<in>set xs. \<exists>v. map_get d n = Some v \<and> int (count_list xs n) \<le> v"
  shows "\<exists>p. snd (fold visit xs (d, q)) = q @ p \<and> distinct p
           \<and> set p = {n \<in> set xs. map_get d n = Some (int (count_list xs n))}
           \<and> (\<forall>n. map_get (fst (fold visit xs (d, q))) n
                  = map_option (\<lambda>v. v - int (count_list xs n)) (map_get d n))"
  using assms
proof (induction xs arbitrary: d q)
  case Nil
  then show ?case by (simp add: option.map_ident)
next
  case (Cons x xs)
  from Cons.prems obtain v where v: "map_get d x = Some v" "int (count_list xs x) + 1 \<le> v"
    by fastforce
  let ?d1 = "map_set d x (v - 1)"
  let ?q1 = "(if v - 1 = 0 then q @ [x] else q)"
  have vis: "visit x (d, q) = (?d1, ?q1)"
    using v by (simp add: visit_def)
  have pre: "\<forall>n\<in>set xs. \<exists>w. map_get ?d1 n = Some w \<and> int (count_list xs n) \<le> w"
  proof
    fix n assume n: "n \<in> set xs"
    show "\<exists>w. map_get ?d1 n = Some w \<and> int (count_list xs n) \<le> w"
    proof (cases "n = x")
      case True
      then show ?thesis using v by (simp add: map_get_map_set)
    next
      case False
      then show ?thesis using Cons.prems n by (fastforce simp: map_get_map_set)
    qed
  qed
  from Cons.IH [OF pre, of ?q1] obtain p where
    p: "snd (fold visit xs (?d1, ?q1)) = ?q1 @ p" "distinct p"
       "set p = {n \<in> set xs. map_get ?d1 n = Some (int (count_list xs n))}"
       "\<forall>n. map_get (fst (fold visit xs (?d1, ?q1))) n
             = map_option (\<lambda>w. w - int (count_list xs n)) (map_get ?d1 n)"
    by blast
  have fold_eq: "fold visit (x # xs) (d, q) = fold visit xs (?d1, ?q1)"
    using vis by simp
  have dvals: "\<forall>n. map_get (fst (fold visit (x # xs) (d, q))) n
             = map_option (\<lambda>w. w - int (count_list (x # xs) n)) (map_get d n)"
    using p(4) v(1) unfolding fold_eq by (auto simp: map_get_map_set)
  show ?case
  proof (cases "v - 1 = 0")
    case True
    then have cx: "count_list xs x = 0" using v by simp
    then have xnot: "x \<notin> set xs" by (simp add: count_list_0_iff)
    have setp: "set p = {n \<in> set xs. map_get d n = Some (int (count_list xs n))}"
      using p(3) xnot by (auto simp: map_get_map_set)
    have "snd (fold visit (x # xs) (d, q)) = q @ (x # p)"
      using p(1) True unfolding fold_eq by simp
    moreover have "distinct (x # p)" using p(2) setp xnot by auto
    moreover have "set (x # p) = {n \<in> set (x # xs). map_get d n = Some (int (count_list (x # xs) n))}"
      using setp xnot v True cx by auto
    ultimately show ?thesis using dvals by blast
  next
    case False
    have "snd (fold visit (x # xs) (d, q)) = q @ p"
      using p(1) False unfolding fold_eq by simp
    moreover have "set p = {n \<in> set (x # xs). map_get d n = Some (int (count_list (x # xs) n))}"
    proof -
      have "x \<in> set p \<longleftrightarrow> v = int (count_list xs x) + 1"
      proof
        assume "x \<in> set p"
        then show "v = int (count_list xs x) + 1" using p(3) by (auto simp: map_get_map_set)
      next
        assume a: "v = int (count_list xs x) + 1"
        then have "count_list xs x \<noteq> 0" using False by simp
        then have "x \<in> set xs" by (simp add: count_list_0_iff)
        then show "x \<in> set p" using p(3) a by (simp add: map_get_map_set)
      qed
      moreover have "\<And>n. n \<noteq> x \<Longrightarrow> n \<in> set p \<longleftrightarrow> n \<in> set xs \<and> map_get d n = Some (int (count_list xs n))"
        using p(3) by (auto simp: map_get_map_set)
      ultimately show ?thesis using v(1) by auto
    qed
    ultimately show ?thesis using dvals p(2) by blast
  qed
qed

subsection \<open>The invariant of the queue loop\<close>

lemma count_list_edges:
  "count_list (map snd (filter (\<lambda>e. fst e = c) E)) n
     = length (filter (\<lambda>e. fst e = c \<and> snd e = n) E)"
  by (induction E) auto

lemma rem_indeg_insert:
  "c \<notin> R \<Longrightarrow> rem_indeg E R n
     = int (length (filter (\<lambda>e. fst e = c \<and> snd e = n) E)) + rem_indeg E (insert c R) n"
  unfolding rem_indeg_def by (induction E) auto

lemma rem_indeg_zero: "rem_indeg E R n = 0 \<longleftrightarrow> preds_done E R n"
  unfolding rem_indeg_def preds_done_def by (auto simp: filter_empty_conv)

lemma preds_done_mono: "preds_done E R n \<Longrightarrow> R \<subseteq> R' \<Longrightarrow> preds_done E R' n"
  unfolding preds_done_def by blast

lemma kahn_inv_step:
  assumes inv: "kahn_inv E K d (c # q) r" and g: "graph_ok E K g"
  shows "kahn_inv E K (fst (fold visit (or_empty (map_get g c)) (d, q)))
           (snd (fold visit (or_empty (map_get g c)) (d, q))) (r @ [c])"
proof -
  let ?R = "set r"
  let ?nbs = "or_empty (map_get g c)"
  let ?cnt = "\<lambda>n. length (filter (\<lambda>e. fst e = c \<and> snd e = n) E)"
  from inv have dist: "distinct (r @ c # q)" and sub: "set r \<union> set (c # q) \<subseteq> K"
    and dv: "\<forall>n\<in>K. map_get d n = Some (rem_indeg E ?R n)"
    and pd: "\<forall>n\<in>K. (n \<in> set r \<union> set (c # q)) = preds_done E ?R n"
    and ord: "\<forall>e\<in>set E. snd e \<in> set r \<longrightarrow> fst e \<in> set (takeWhile (\<lambda>z. z \<noteq> snd e) r)"
    unfolding kahn_inv_def by blast+
  have cK: "c \<in> K" and cr: "c \<notin> ?R" and cq: "c \<notin> set q" using dist sub by auto
  have nbs: "?nbs = map snd (filter (\<lambda>e. fst e = c) E)" and EK: "\<forall>e\<in>set E. fst e \<in> K \<and> snd e \<in> K"
    using g cK unfolding graph_ok_def by blast+
  have cnt: "\<And>n. count_list ?nbs n = ?cnt n" by (simp add: nbs count_list_edges)
  have nbsK: "set ?nbs \<subseteq> K" using EK by (auto simp: nbs)
  have split: "\<And>n. rem_indeg E ?R n = int (?cnt n) + rem_indeg E (insert c ?R) n"
    by (rule rem_indeg_insert [OF cr])
  have nonneg: "\<And>n. 0 \<le> rem_indeg E (insert c ?R) n" by (simp add: rem_indeg_def)
  have pre: "\<forall>n\<in>set ?nbs. \<exists>v. map_get d n = Some v \<and> int (count_list ?nbs n) \<le> v"
  proof
    fix n assume "n \<in> set ?nbs"
    then have "n \<in> K" using nbsK by blast
    then have "map_get d n = Some (rem_indeg E ?R n)" using dv by blast
    moreover have "int (count_list ?nbs n) \<le> rem_indeg E ?R n"
      using split [of n] nonneg [of n] cnt [of n] by simp
    ultimately show "\<exists>v. map_get d n = Some v \<and> int (count_list ?nbs n) \<le> v" by blast
  qed
  from visit_fold_result [OF pre, of q] obtain p where
    p: "snd (fold visit ?nbs (d, q)) = q @ p" "distinct p"
       "set p = {n \<in> set ?nbs. map_get d n = Some (int (count_list ?nbs n))}"
       "\<forall>n. map_get (fst (fold visit ?nbs (d, q))) n
             = map_option (\<lambda>v. v - int (count_list ?nbs n)) (map_get d n)"
    by blast
  have in_nbs: "\<And>n. n \<in> set ?nbs \<longleftrightarrow> (\<exists>e\<in>set E. fst e = c \<and> snd e = n)"
    by (auto simp: nbs)
  have p_char: "\<And>n. n \<in> set p \<longleftrightarrow> (\<exists>e\<in>set E. fst e = c \<and> snd e = n) \<and> preds_done E (insert c ?R) n"
  proof -
    fix n
    show "n \<in> set p \<longleftrightarrow> (\<exists>e\<in>set E. fst e = c \<and> snd e = n) \<and> preds_done E (insert c ?R) n"
    proof (cases "n \<in> set ?nbs")
      case True
      then have "n \<in> K" using nbsK by blast
      then have "map_get d n = Some (rem_indeg E ?R n)" using dv by blast
      then have "n \<in> set p \<longleftrightarrow> rem_indeg E (insert c ?R) n = 0"
        using p(3) True split [of n] cnt [of n] by auto
      then show ?thesis using True in_nbs [of n] by (simp add: rem_indeg_zero)
    next
      case False
      then show ?thesis using p(3) in_nbs [of n] by auto
    qed
  qed
  have p_fresh: "\<And>n. n \<in> set p \<Longrightarrow> n \<notin> set r \<union> set (c # q)"
  proof -
    fix n assume np: "n \<in> set p"
    then obtain e where e: "e \<in> set E" "fst e = c" "snd e = n" using p_char by blast
    then have "n \<in> K" using EK by blast
    moreover have "\<not> preds_done E ?R n" using e cr unfolding preds_done_def by blast
    ultimately show "n \<notin> set r \<union> set (c # q)" using pd by blast
  qed
  have pK: "set p \<subseteq> K" using p(3) nbsK by blast
  have 1: "distinct ((r @ [c]) @ q @ p)"
    using dist p(2) p_fresh by auto
  have 2: "set (r @ [c]) \<union> set (q @ p) \<subseteq> K" using sub pK by auto
  have 3: "\<forall>n\<in>K. map_get (fst (fold visit ?nbs (d, q))) n = Some (rem_indeg E (set (r @ [c])) n)"
  proof
    fix n assume "n \<in> K"
    then have "map_get d n = Some (rem_indeg E ?R n)" using dv by blast
    then show "map_get (fst (fold visit ?nbs (d, q))) n = Some (rem_indeg E (set (r @ [c])) n)"
      using p(4) split [of n] cnt [of n] by simp
  qed
  have 4: "\<forall>n\<in>K. (n \<in> set (r @ [c]) \<union> set (q @ p)) = preds_done E (set (r @ [c])) n"
  proof
    fix n assume nK: "n \<in> K"
    show "(n \<in> set (r @ [c]) \<union> set (q @ p)) = preds_done E (set (r @ [c])) n"
    proof
      assume "n \<in> set (r @ [c]) \<union> set (q @ p)"
      then consider "n \<in> set r \<union> set (c # q)" | "n \<in> set p" by auto
      then show "preds_done E (set (r @ [c])) n"
      proof cases
        case 1
        then have "preds_done E ?R n" using pd nK by blast
        then show ?thesis by (rule preds_done_mono) auto
      next
        case 2
        then show ?thesis using p_char by simp
      qed
    next
      assume a: "preds_done E (set (r @ [c])) n"
      show "n \<in> set (r @ [c]) \<union> set (q @ p)"
      proof (cases "preds_done E ?R n")
        case True
        then have "n \<in> set r \<union> set (c # q)" using pd nK by blast
        then show ?thesis by auto
      next
        case False
        then obtain e where e: "e \<in> set E" "snd e = n" "fst e \<notin> ?R"
          unfolding preds_done_def by blast
        then have "fst e = c" using a unfolding preds_done_def by auto
        then have "n \<in> set p" using p_char e a by auto
        then show ?thesis by simp
      qed
    qed
  qed
  have 5: "\<forall>e\<in>set E. snd e \<in> set (r @ [c])
             \<longrightarrow> fst e \<in> set (takeWhile (\<lambda>z. z \<noteq> snd e) (r @ [c]))"
  proof (intro ballI impI)
    fix e assume e: "e \<in> set E" "snd e \<in> set (r @ [c])"
    show "fst e \<in> set (takeWhile (\<lambda>z. z \<noteq> snd e) (r @ [c]))"
    proof (cases "snd e \<in> set r")
      case True
      then have "takeWhile (\<lambda>z. z \<noteq> snd e) (r @ [c]) = takeWhile (\<lambda>z. z \<noteq> snd e) r"
        by (intro takeWhile_append1 [where x = "snd e"]) auto
      then show ?thesis using ord e(1) True by simp
    next
      case False
      then have sc: "snd e = c" using e(2) by simp
      have "takeWhile (\<lambda>z. z \<noteq> c) (r @ [c]) = r @ takeWhile (\<lambda>z. z \<noteq> c) [c]"
        by (rule takeWhile_append2) (use cr in auto)
      then have "takeWhile (\<lambda>z. z \<noteq> c) (r @ [c]) = r" by simp
      moreover have "preds_done E ?R c" using pd cK by auto
      then have "fst e \<in> set r" using e(1) sc unfolding preds_done_def by blast
      ultimately show ?thesis using sc by simp
    qed
  qed
  show ?thesis
    unfolding kahn_inv_def p(1) using 1 2 3 4 5 by blast
qed

lemma kahn_loop_post:
  "graph_ok E K g \<Longrightarrow> kahn_inv E K d q r \<Longrightarrow> kahn_post E K (kahn_loop g d q r)"
proof (induction g d q r rule: kahn_loop.induct)
  case (1 g d result)
  then show ?case by (simp add: kahn_inv_def kahn_post_def)
next
  case (2 g d current queue result)
  have "kahn_inv E K (fst (fold visit (or_empty (map_get g current)) (d, queue)))
          (snd (fold visit (or_empty (map_get g current)) (d, queue))) (result @ [current])"
    by (rule kahn_inv_step [OF "2.prems"(2) "2.prems"(1)])
  then show ?case using "2.IH" "2.prems"(1) by (simp add: Let_def)
qed

lemma map_fst_map_set:
  "map fst (map_set m k v) = (if k \<in> fst ` set m then map fst m else map fst m @ [k])"
  by (simp add: map_set_update update_keys)

lemma init_tables:
  "map_get (fst (fold (\<lambda>i gd. (map_set (fst gd) i [], map_set (snd gd) i 0)) xs
                    (g :: graph, d :: indegree))) k
      = (if k \<in> set xs then Some [] else map_get g k)
   \<and> map_get (snd (fold (\<lambda>i gd. (map_set (fst gd) i [], map_set (snd gd) i 0)) xs (g, d))) k
      = (if k \<in> set xs then Some 0 else map_get d k)
   \<and> (distinct (map fst d) \<longrightarrow>
        distinct (map fst (snd (fold (\<lambda>i gd. (map_set (fst gd) i [], map_set (snd gd) i 0)) xs (g, d)))))"
proof (induction xs arbitrary: g d)
  case Nil
  then show ?case by simp
next
  case (Cons x xs)
  have "distinct (map fst d) \<Longrightarrow> distinct (map fst (map_set d x 0))"
    by (simp add: map_fst_map_set)
  then show ?case
    using Cons.IH [of "map_set g x []" "map_set d x 0"] by (auto simp: map_get_map_set)
qed

lemma build_as_edges:
  "fold (\<lambda>i gd. fold (add_edge ids i) (deps i) gd) xs gd
     = add_edges ids (concat (map (\<lambda>i. map (\<lambda>depId. (depId, i)) (deps i)) xs)) gd"
proof (induction xs arbitrary: gd)
  case Nil
  then show ?case by (simp add: add_edges_def)
next
  case (Cons x xs)
  have "fold (add_edge ids x) (deps x) gd
      = fold (\<lambda>e. add_edge ids (snd e) (fst e)) (map (\<lambda>depId. (depId, x)) (deps x)) gd"
    by (simp add: fold_map comp_def)
  then show ?case using Cons.IH by (simp add: add_edges_def)
qed

lemma add_edges_filter:
  "add_edges ids es gd = add_edges ids (filter (\<lambda>e. fst e \<in> set ids) es) gd"
  unfolding add_edges_def
  by (induction es arbitrary: gd) (auto simp: add_edge_def)

lemma dep_edges_filter:
  "dep_edges reg ids
     = filter (\<lambda>e. fst e \<in> set ids)
         (concat (map (\<lambda>i. map (\<lambda>depId. (depId, i)) (getDependencies reg i)) ids))"
  by (simp add: dep_edges_def filter_concat filter_map comp_def)

lemma add_edges_result:
  assumes "\<forall>e\<in>set es. fst e \<in> set ids \<and> map_get g (fst e) \<noteq> None \<and> map_get d (snd e) \<noteq> None"
  shows "map_get (fst (add_edges ids es (g, d))) k
           = map_option (\<lambda>l. l @ map snd (filter (\<lambda>e. fst e = k) es)) (map_get g k)
       \<and> map_get (snd (add_edges ids es (g, d))) k
           = map_option (\<lambda>v. v + int (length (filter (\<lambda>e. snd e = k) es))) (map_get d k)
       \<and> map fst (snd (add_edges ids es (g, d))) = map fst d"
  using assms
proof (induction es arbitrary: g d)
  case Nil
  then show ?case by (simp add: add_edges_def option.map_ident)
next
  case (Cons e es)
  obtain l v where l: "map_get g (fst e) = Some l" and v: "map_get d (snd e) = Some v"
    and eid: "fst e \<in> set ids"
    using Cons.prems by auto
  let ?g1 = "map_set g (fst e) (l @ [snd e])"
  let ?d1 = "map_set d (snd e) (v + 1)"
  have step: "add_edge ids (snd e) (fst e) (g, d) = (?g1, ?d1)"
    using l v eid by (simp add: add_edge_def map_has_def or_empty_def)
  have pre: "\<forall>e'\<in>set es. fst e' \<in> set ids \<and> map_get ?g1 (fst e') \<noteq> None \<and> map_get ?d1 (snd e') \<noteq> None"
    using Cons.prems by (auto simp: map_get_map_set)
  have unf: "add_edges ids (e # es) (g, d) = add_edges ids es (?g1, ?d1)"
    using step by (simp add: add_edges_def)
  have keys: "map fst ?d1 = map fst d"
    using v by (auto simp: map_fst_map_set map_get_map_of dest!: map_of_SomeD intro: rev_image_eqI)
  show ?case
    unfolding unf using Cons.IH [OF pre] l v keys
    by (auto simp: map_get_map_set)
qed

lemma kahn_order_post: "kahn_post (dep_edges reg ids) (set ids) (kahn_order reg ids)"
proof -
  let ?E = "dep_edges reg ids"
  let ?K = "set ids"
  let ?init = "fold (\<lambda>i gd. (map_set (fst gd) i [], map_set (snd gd) i 0)) ids (([], []) :: graph \<times> indegree)"
  let ?g0 = "fst ?init" and ?d0 = "snd ?init"
  let ?gd = "build_graph reg ids"
  have g0: "map_get ?g0 k = (if k \<in> ?K then Some [] else None)" for k
    using init_tables [of ids "[]" "[]" k] by simp
  have d0: "map_get ?d0 k = (if k \<in> ?K then Some 0 else None)" for k
    using init_tables [of ids "[]" "[]" k] by simp
  have dist0: "distinct (map fst ?d0)"
    using init_tables [of ids "[]" "[]"] by simp
  have EK: "\<forall>e\<in>set ?E. fst e \<in> ?K \<and> snd e \<in> ?K"
    by (auto simp: dep_edges_def)
  have gd: "?gd = add_edges ids ?E (?g0, ?d0)"
    unfolding build_graph_def
    by (simp add: build_as_edges dep_edges_filter add_edges_filter [symmetric])
  have pre: "\<forall>e\<in>set ?E. fst e \<in> ?K \<and> map_get ?g0 (fst e) \<noteq> None \<and> map_get ?d0 (snd e) \<noteq> None"
    using EK by (simp add: g0 d0)
  have G: "\<And>k. map_get (fst ?gd) k
             = map_option (\<lambda>l. l @ map snd (filter (\<lambda>e. fst e = k) ?E)) (map_get ?g0 k)"
    and D: "\<And>k. map_get (snd ?gd) k
             = map_option (\<lambda>v. v + int (length (filter (\<lambda>e. snd e = k) ?E))) (map_get ?d0 k)"
    and keys: "map fst (snd ?gd) = map fst ?d0"
    unfolding gd using add_edges_result [OF pre] by blast+
  have gok: "graph_ok ?E ?K (fst ?gd)"
    unfolding graph_ok_def using EK by (simp add: G g0 or_empty_def)
  have Dval: "\<And>n. n \<in> ?K \<Longrightarrow> map_get (snd ?gd) n = Some (rem_indeg ?E {} n)"
    by (simp add: D d0 rem_indeg_def)
  have distk: "distinct (map fst (snd ?gd))" using keys dist0 by simp
  let ?q0 = "map fst (filter (\<lambda>(i, degree). degree = 0) (snd ?gd))"
  have distq: "distinct ?q0" using distk by (rule distinct_map_filter)
  have setq: "\<And>n. n \<in> set ?q0 \<longleftrightarrow> map_get (snd ?gd) n = Some 0"
    using distk by (force simp: map_get_map_of)
  have Dnone: "\<And>n. n \<notin> ?K \<Longrightarrow> map_get (snd ?gd) n = None"
    by (simp add: D d0)
  have qK: "set ?q0 \<subseteq> ?K"
  proof
    fix n assume "n \<in> set ?q0"
    then have "map_get (snd ?gd) n = Some 0" using setq by blast
    then show "n \<in> ?K" using Dnone [of n] by auto
  qed
  have inv: "kahn_inv ?E ?K (snd ?gd) ?q0 []"
    unfolding kahn_inv_def
    using distq qK Dval setq by (auto simp: rem_indeg_zero [symmetric])
  show ?thesis
    unfolding kahn_order_def Let_def by (rule kahn_loop_post [OF gok inv])
qed

lemma takeWhile_before_mono:
  "b \<in> set (takeWhile (\<lambda>z. z \<noteq> c) xs)
     \<Longrightarrow> set (takeWhile (\<lambda>z. z \<noteq> b) xs) \<subseteq> set (takeWhile (\<lambda>z. z \<noteq> c) xs)"
  by (induction xs) (auto split: if_splits)

lemma kahn_post_trancl:
  assumes post: "kahn_post E K res" and path: "(a, b) \<in> (set E)\<^sup>+" and b: "b \<in> set res"
  shows "a \<in> set (takeWhile (\<lambda>z. z \<noteq> b) res)"
  using path b
proof (induction rule: trancl_induct)
  case (base y)
  then show ?case using post unfolding kahn_post_def by force
next
  case (step y z)
  have yz: "y \<in> set (takeWhile (\<lambda>w. w \<noteq> z) res)"
    using post step.hyps(2) step.prems unfolding kahn_post_def by force
  then have "y \<in> set res" by (auto dest: set_takeWhileD)
  then have "a \<in> set (takeWhile (\<lambda>w. w \<noteq> y) res)" by (rule step.IH)
  then show ?case using takeWhile_before_mono [OF yz] by blast
qed

lemma kahn_post_cycle_excluded:
  assumes post: "kahn_post E K res" and cyc: "(x, x) \<in> (set E)\<^sup>+"
  shows "x \<notin> set res"
proof
  assume "x \<in> set res"
  then have "x \<in> set (takeWhile (\<lambda>z. z \<noteq> x) res)"
    by (rule kahn_post_trancl [OF post cyc])
  then show False by (auto dest: set_takeWhileD)
qed

lemma kahn_post_pred_closed:
  assumes post: "kahn_post E K res" and path: "(c, i) \<in> (set E)\<^sup>*" and i: "i \<in> set res"
  shows "c \<in> set res"
proof (cases "c = i")
  case True
  then show ?thesis using i by simp
next
  case False
  then have "(c, i) \<in> (set E)\<^sup>+" using path by (simp add: rtrancl_eq_or_trancl)
  then have "c \<in> set (takeWhile (\<lambda>z. z \<noteq> i) res)"
    using i by (rule kahn_post_trancl [OF post])
  then show ?thesis by (auto dest: set_takeWhileD)
qed

lemma kahn_post_unresolved:
  assumes post: "kahn_post E K res"
    and EK: "\<forall>e\<in>set E. fst e \<in> K \<and> snd e \<in> K"
    and i: "i \<in> K"
  shows "i \<notin> set res \<longleftrightarrow> (\<exists>c. (c, c) \<in> (set E)\<^sup>+ \<and> (c, i) \<in> (set E)\<^sup>*)"
proof
  assume "\<exists>c. (c, c) \<in> (set E)\<^sup>+ \<and> (c, i) \<in> (set E)\<^sup>*"
  then obtain c where c: "(c, c) \<in> (set E)\<^sup>+" "(c, i) \<in> (set E)\<^sup>*" by blast
  show "i \<notin> set res"
  proof
    assume "i \<in> set res"
    then have "c \<in> set res" by (rule kahn_post_pred_closed [OF post c(2)])
    then show False using kahn_post_cycle_excluded [OF post c(1)] by simp
  qed
next
  assume ni: "i \<notin> set res"
  define S where "S = {m \<in> K. m \<notin> set res \<and> (m, i) \<in> (set E)\<^sup>*}"
  define r where "r = {e \<in> set E. fst e \<in> S \<and> snd e \<in> S}"
  have iS: "i \<in> S" using i ni by (simp add: S_def)
  have pred: "\<exists>m'. m' \<in> S \<and> (m', m) \<in> r" if m: "m \<in> S" for m
  proof -
    have mK: "m \<in> K" and mres: "m \<notin> set res" and mi: "(m, i) \<in> (set E)\<^sup>*"
      using m by (simp_all add: S_def)
    have "\<not> preds_done E (set res) m"
      using post mK mres unfolding kahn_post_def by blast
    then obtain e where e: "e \<in> set E" "snd e = m" "fst e \<notin> set res"
      unfolding preds_done_def by blast
    have eE: "(fst e, m) \<in> set E" using e(1,2) by (metis prod.collapse)
    have "fst e \<in> K" using EK e(1) by blast
    moreover have "(fst e, i) \<in> (set E)\<^sup>*" using eE mi by (rule converse_rtrancl_into_rtrancl)
    ultimately have fS: "fst e \<in> S" using e(3) by (simp add: S_def)
    have "(fst e, m) \<in> r" using eE fS m by (simp add: r_def)
    then show ?thesis using fS by blast
  qed
  have rE: "r \<subseteq> set E" by (auto simp: r_def)
  have "finite r" using rE by (rule finite_subset) simp
  have "\<not> acyclic r"
  proof
    assume "acyclic r"
    then have "wf r" using \<open>finite r\<close> by (simp add: finite_acyclic_wf)
    then obtain z where z: "z \<in> S" and zmin: "\<And>y. (y, z) \<in> r \<Longrightarrow> y \<notin> S"
      using iS by (rule wfE_min) blast
    from pred [OF z] obtain m' where "m' \<in> S" "(m', z) \<in> r" by blast
    then show False using zmin by blast
  qed
  then obtain c where c: "(c, c) \<in> r\<^sup>+" unfolding acyclic_def by blast
  have cc: "(c, c) \<in> (set E)\<^sup>+" using c rE by (meson trancl_mono)
  from tranclD [OF c] obtain y where "(c, y) \<in> r" by blast
  then have "c \<in> S" by (simp add: r_def)
  then have "(c, i) \<in> (set E)\<^sup>*" by (simp add: S_def)
  then show "\<exists>c. (c, c) \<in> (set E)\<^sup>+ \<and> (c, i) \<in> (set E)\<^sup>*" using cc by blast
qed

lemma kahn_post_complete:
  assumes post: "kahn_post E K res" and ac: "acyclic (set E)"
    and EK: "\<forall>e\<in>set E. fst e \<in> K \<and> snd e \<in> K"
  shows "set res = K"
proof (rule ccontr)
  assume neq: "set res \<noteq> K"
  have sub: "set res \<subseteq> K" using post unfolding kahn_post_def by blast
  then obtain x where x: "x \<in> K - set res" using neq by blast
  have "wf (set E)" using ac by (simp add: finite_acyclic_wf)
  then obtain z where z: "z \<in> K - set res" and zmin: "\<And>y. (y, z) \<in> set E \<Longrightarrow> y \<notin> K - set res"
    using x by (rule wfE_min) blast
  have "preds_done E (set res) z"
    unfolding preds_done_def
  proof (intro ballI impI)
    fix e assume e: "e \<in> set E" "snd e = z"
    then have "(fst e, z) \<in> set E" by (metis prod.collapse)
    then have "fst e \<notin> K - set res" by (rule zmin)
    then show "fst e \<in> set res" using EK e(1) by blast
  qed
  then have "z \<in> set res" using post z unfolding kahn_post_def by blast
  then show False using z by blast
qed

subsection \<open>Evaluating the scenarios\<close>

lemmas scenario_defs = plain_manifest_def register_all_def registry_register_def
  registry_empty_def buildDependencies_def map_has_def or_empty_def getDependencies_def Let_def

lemmas order_defs = resolveLoadOrder_def kahn_order_def build_graph_def add_edge_def visit_def
  map_has_def or_empty_def Let_def

lemma deps_ab:
  "getDependencies registry_ab ''a'' = [''b'']" "getDependencies registry_ab ''b'' = []"
  by (simp_all add: registry_ab_def scenario_defs)

lemma deps_cycle:
  "getDependencies registry_cycle ''a'' = [''b'']"
  "getDependencies registry_cycle ''b'' = [''a'']"
  "getDependencies registry_cycle ''c'' = []"
  "getDependencies registry_cycle ''d'' = [''c'']"
  "getDependencies registry_cycle ''e'' = [''a'']"
  by (simp_all add: registry_cycle_def scenario_defs)

subsection \<open>Acyclic dependencies\<close>

text \<open>
  Claim C3, for a list of ids without repetitions. When the dependency edges among
  \<open>pluginIds\<close> (required and optional dependencies that are themselves in the list)
  have no cycle, \<open>resolveLoadOrder\<close> returns a list that holds every input id exactly
  once, and in which every dependency that is in the list stands before each id that
  depends on it.
\<close>

theorem resolveLoadOrder_acyclic:
  assumes dist: "distinct pluginIds" and ac: "acyclic (set (dep_edges reg pluginIds))"
  shows "\<exists>res. resolveLoadOrder reg pluginIds = Inr res \<and> distinct res
           \<and> set res = set pluginIds
           \<and> (\<forall>i\<in>set pluginIds. \<forall>d\<in>set (getDependencies reg i).
                 d \<in> set pluginIds \<longrightarrow> appears_before d i res)"
proof -
  let ?E = "dep_edges reg pluginIds"
  let ?res = "kahn_order reg pluginIds"
  have post: "kahn_post ?E (set pluginIds) ?res" by (rule kahn_order_post)
  have EK: "\<forall>e\<in>set ?E. fst e \<in> set pluginIds \<and> snd e \<in> set pluginIds"
    by (auto simp: dep_edges_def)
  have full: "set ?res = set pluginIds" by (rule kahn_post_complete [OF post ac EK])
  have dres: "distinct ?res" using post unfolding kahn_post_def by blast
  have "length ?res = length pluginIds"
    using full dres dist by (metis distinct_card)
  then have r: "resolveLoadOrder reg pluginIds = Inr ?res"
    by (simp add: resolveLoadOrder_def)
  have "appears_before d i ?res"
    if "i \<in> set pluginIds" "d \<in> set (getDependencies reg i)" "d \<in> set pluginIds" for i d
  proof -
    have e: "(d, i) \<in> set ?E" using that by (auto simp: dep_edges_def)
    have "i \<in> set ?res" using that(1) full by simp
    then show ?thesis using post e unfolding kahn_post_def appears_before_def by force
  qed
  then show ?thesis using r dres full by blast
qed

text \<open>
  The example of the claim: with \<open>{id: "a", dependencies: ["b"]}\<close> and
  \<open>{id: "b", dependencies: []}\<close>, \<open>resolveLoadOrder(["a", "b"])\<close> is \<open>["b", "a"]\<close>.
\<close>

theorem resolveLoadOrder_acyclic_witness:
  "distinct [''a'', ''b''] \<and> acyclic (set (dep_edges registry_ab [''a'', ''b'']))
   \<and> resolveLoadOrder registry_ab [''a'', ''b''] = Inr [''b'', ''a'']
   \<and> appears_before ''b'' ''a'' [''b'', ''a'']"
proof -
  have d: "distinct [''a'', ''b'']" by simp
  have ac: "acyclic (set (dep_edges registry_ab [''a'', ''b'']))"
    by (simp add: dep_edges_def deps_ab wf_acyclic)
  have ev: "resolveLoadOrder registry_ab [''a'', ''b''] = Inr [''b'', ''a'']"
    by (simp add: order_defs deps_ab)
  from resolveLoadOrder_acyclic [OF d ac] obtain res where
    res: "resolveLoadOrder registry_ab [''a'', ''b''] = Inr res"
      "\<forall>i\<in>set [''a'', ''b'']. \<forall>d\<in>set (getDependencies registry_ab i).
          d \<in> set [''a'', ''b''] \<longrightarrow> appears_before d i res"
    by blast
  have "res = [''b'', ''a'']" using res(1) ev by simp
  moreover have "appears_before ''b'' ''a'' res" using res(2) by (simp add: deps_ab)
  ultimately show ?thesis using d ac ev by simp
qed

text \<open>
  The claim as stated, for every input list, fails on a list that repeats an id. No
  dependency is involved: \<open>resolveLoadOrder(["b", "b"])\<close> outputs \<open>b\<close> once, finds the
  output shorter than the input and throws, naming no plugin.
\<close>

theorem resolveLoadOrder_repeated_id_counterexample:
  "acyclic (set (dep_edges registry_ab [''b'', ''b'']))
   \<and> resolveLoadOrder registry_ab [''b'', ''b'']
       = Inl (Error ''Circular dependency detected in plugins: '')"
  by (simp add: order_defs dep_edges_def deps_ab wf_acyclic)

subsection \<open>Cyclic dependencies\<close>

text \<open>
  Claim C4. When the dependency edges among \<open>pluginIds\<close> contain a cycle,
  \<open>resolveLoadOrder\<close> throws the error \<open>Circular dependency detected in plugins: ...\<close>,
  whose message lists, joined by a comma and a space and in input order, exactly the
  unresolved ids: the input ids that lie on a dependency cycle or depend, directly or
  through other ids, on one that does. That list is not empty. The unresolved ids are
  exactly the input ids missing from the partial output of Kahn's algorithm, and that
  partial output is a topological order of the other ids: it has no repetition, holds
  input ids only, and a dependency of an id in it stands before that id.
\<close>

theorem resolveLoadOrder_cyclic:
  assumes cyc: "\<not> acyclic (set (dep_edges reg pluginIds))"
  shows "(let E = set (dep_edges reg pluginIds);
              partial = kahn_order reg pluginIds;
              unresolved = filter (\<lambda>i. \<exists>c. (c, c) \<in> E\<^sup>+ \<and> (c, i) \<in> E\<^sup>*) pluginIds
          in resolveLoadOrder reg pluginIds
               = Inl (Error (''Circular dependency detected in plugins: '' @ join '', '' unresolved))
             \<and> unresolved \<noteq> []
             \<and> unresolved = filter (\<lambda>i. i \<notin> set partial) pluginIds
             \<and> distinct partial \<and> set partial \<subseteq> set pluginIds
             \<and> (\<forall>e\<in>E. snd e \<in> set partial \<longrightarrow> appears_before (fst e) (snd e) partial))"
proof -
  let ?E = "dep_edges reg pluginIds"
  let ?res = "kahn_order reg pluginIds"
  let ?un = "filter (\<lambda>i. \<exists>c. (c, c) \<in> (set ?E)\<^sup>+ \<and> (c, i) \<in> (set ?E)\<^sup>*) pluginIds"
  have post: "kahn_post ?E (set pluginIds) ?res" by (rule kahn_order_post)
  have EK: "\<forall>e\<in>set ?E. fst e \<in> set pluginIds \<and> snd e \<in> set pluginIds"
    by (auto simp: dep_edges_def)
  have un: "?un = filter (\<lambda>i. i \<notin> set ?res) pluginIds"
    by (rule filter_cong [OF refl]) (simp add: kahn_post_unresolved [OF post EK])
  obtain x where x: "(x, x) \<in> (set ?E)\<^sup>+" using cyc unfolding acyclic_def by blast
  from tranclD [OF x] obtain y where "(x, y) \<in> set ?E" by blast
  then have xin: "x \<in> set pluginIds" using EK by force
  have xout: "x \<notin> set ?res" by (rule kahn_post_cycle_excluded [OF post x])
  have "set ?res \<subset> set pluginIds" using post xin xout unfolding kahn_post_def by blast
  then have "card (set ?res) < card (set pluginIds)" by (simp add: psubset_card_mono)
  moreover have "card (set ?res) = length ?res"
    using post unfolding kahn_post_def by (simp add: distinct_card)
  moreover have "card (set pluginIds) \<le> length pluginIds" by (rule card_length)
  ultimately have "length ?res \<noteq> length pluginIds" by simp
  then have 1: "resolveLoadOrder reg pluginIds
           = Inl (Error (''Circular dependency detected in plugins: '' @ join '', '' ?un))"
    unfolding un by (simp add: resolveLoadOrder_def)
  have 2: "?un \<noteq> []"
    unfolding un using xin xout by (auto simp: filter_empty_conv)
  have 3: "distinct ?res" "set ?res \<subseteq> set pluginIds"
    using post unfolding kahn_post_def by blast+
  have 4: "\<forall>e\<in>set ?E. snd e \<in> set ?res \<longrightarrow> appears_before (fst e) (snd e) ?res"
    using post unfolding kahn_post_def appears_before_def by blast
  show ?thesis
    unfolding Let_def using 1 2 un 3 4 by blast
qed

text \<open>
  With \<open>a\<close> and \<open>b\<close> depending on each other, \<open>c\<close> on nothing, \<open>d\<close> on \<open>c\<close> and \<open>e\<close> on \<open>a\<close>,
  the partial output is \<open>c, d\<close> and the error names \<open>a, b, e\<close>.
\<close>

theorem resolveLoadOrder_cyclic_witness:
  "\<not> acyclic (set (dep_edges registry_cycle [''a'', ''b'', ''c'', ''d'', ''e'']))
   \<and> kahn_order registry_cycle [''a'', ''b'', ''c'', ''d'', ''e''] = [''c'', ''d'']
   \<and> resolveLoadOrder registry_cycle [''a'', ''b'', ''c'', ''d'', ''e'']
       = Inl (Error ''Circular dependency detected in plugins: a, b, e'')"
proof -
  let ?ids = "[''a'', ''b'', ''c'', ''d'', ''e'']"
  let ?E = "set (dep_edges registry_cycle ?ids)"
  have "(''a'', ''b'') \<in> ?E" "(''b'', ''a'') \<in> ?E"
    by (simp_all add: dep_edges_def deps_cycle)
  then have "(''a'', ''a'') \<in> ?E\<^sup>+" by (meson trancl.intros)
  then have cyc: "\<not> acyclic ?E" unfolding acyclic_def by blast
  have ko: "kahn_order registry_cycle ?ids = [''c'', ''d'']"
    by (simp add: order_defs deps_cycle)
  have "resolveLoadOrder registry_cycle ?ids
       = Inl (Error (''Circular dependency detected in plugins: '' @ join '', ''
            (filter (\<lambda>i. i \<notin> set (kahn_order registry_cycle ?ids)) ?ids)))"
    using resolveLoadOrder_cyclic [OF cyc] unfolding Let_def by simp
  then have "resolveLoadOrder registry_cycle ?ids
       = Inl (Error ''Circular dependency detected in plugins: a, b, e'')"
    unfolding ko by simp
  then show ?thesis using cyc ko by simp
qed

section \<open>Properties of the PluginRegistry\<close>

text \<open>
  Claim C7, as the code has it. Registering a manifest whose id is already registered
  does not throw: \<open>register\<close> logs a warning and returns, and the registry (manifests,
  states, dependency edges, everything) is unchanged.
\<close>

theorem register_duplicate_unchanged:
  assumes "ident m \<noteq> []" and "map_has (manifests reg) (ident m)"
  shows "registry_register m reg = Inr reg"
  using assms by (simp add: registry_register_def)

theorem register_duplicate_unchanged_witness:
  "ident (plain_manifest ''b'' [''a'']) \<noteq> []
   \<and> map_has (manifests registry_ab) (ident (plain_manifest ''b'' [''a'']))
   \<and> registry_register (plain_manifest ''b'' [''a'']) registry_ab = Inr registry_ab"
proof -
  have 1: "ident (plain_manifest ''b'' [''a'']) \<noteq> []" by (simp add: plain_manifest_def)
  have 2: "map_has (manifests registry_ab) (ident (plain_manifest ''b'' [''a'']))"
    by (simp add: registry_ab_def scenario_defs)
  show ?thesis using 1 2 register_duplicate_unchanged [OF 1 2] by simp
qed

text \<open>
  The claim as stated (a \<open>DuplicateModule\<close> error is thrown) fails: registering \<open>a\<close> a
  second time returns normally.
\<close>

theorem register_duplicate_counterexample:
  "map_has (manifests registry_ab) (ident (plain_manifest ''a'' [''b'']))
   \<and> \<not> isl (registry_register (plain_manifest ''a'' [''b'']) registry_ab)"
  by (simp add: registry_ab_def scenario_defs)

section \<open>Properties of the LifecycleManager\<close>

lemmas registry_defs = checkDependencies_def checkConflicts_def getManifest_def getInstance_def
  getState_def setState_def setInstance_def getDependents_def getActivePlugins_def
  getPluginsByState_def

subsection \<open>Recording an error\<close>

lemma setError_state: "getState (fst (setError p err r)) p = ERROR"
  by (simp add: setError_def getState_def setState_def map_get_map_set Let_def
      split: option.splits sum.splits)

lemma setError_errors: "map_get (errors (fst (setError p err r))) p = Some err"
  by (simp add: setError_def setState_def map_get_map_set Let_def
      split: option.splits sum.splits)

lemma setError_throws:
  "snd (setError p err r) =
     (case error_message err of
        Inr msg \<Rightarrow> None
      | Inl e \<Rightarrow> if map_has (metadata r) p then Some e else None)"
  by (simp add: setError_def setState_def map_has_def Let_def split: option.splits sum.splits)

lemma setError_instances [simp]: "instances (fst (setError p err r)) = instances r"
  by (simp add: setError_def setState_def Let_def split: option.splits sum.splits)

lemma catch_setError_fields [simp]:
  "lm_hooks (fst (catch_setError p err rt)) = lm_hooks rt"
  "lm_settings (fst (catch_setError p err rt)) = lm_settings rt"
  "stateSnapshots (fst (catch_setError p err rt)) = stateSnapshots rt"
  "lm_registry (fst (catch_setError p err rt)) = fst (setError p err (lm_registry rt))"
  "snd (catch_setError p err rt) = snd (setError p err (lm_registry rt))"
  by (simp_all add: catch_setError_def Let_def)

lemma getError_recorded:
  "map_get (errors r) p = Some err
     \<Longrightarrow> getError r p = (if error_truthy err then Some err else None)"
  by (simp add: getError_def)

lemma metadata_setState [simp]: "metadata (setState p s r) = metadata r"
  by (simp add: setState_def)

lemma rollback_metadata [simp]:
  "metadata (lm_registry (rollback p rt)) = metadata (lm_registry rt)"
  by (simp add: rollback_def split: option.splits)

lemma action_no_handlers: "map_get (hooks hs) n = None \<Longrightarrow> action n d hs = hs"
  by (simp add: action_def emit_def emit_run_def Let_def)

text \<open>The \<open>catch\<close> path of \<open>startPlugin\<close>, projected on the registry and on the hook table.\<close>

lemma start_attempt_failure:
  assumes "m_start inst = Some f" and "\<forall>w. snd (f w) = Some err"
  shows "getState (lm_registry (fst (start_attempt p inst rt))) p = ERROR"
    and "map_get (errors (lm_registry (fst (start_attempt p inst rt)))) p = Some err"
    and "snd (start_attempt p inst rt) =
           (case error_message err of
              Inr msg \<Rightarrow> Inr False
            | Inl e \<Rightarrow> if map_has (metadata (lm_registry rt)) p then Inl e else Inr False)"
  using assms
  by (simp_all add: start_attempt_def run_method_def emit_action_def Let_def takeSnapshot_def
      setError_state setError_errors setError_throws split: option.splits sum.splits)

lemma start_attempt_failure_hooks:
  assumes "m_start inst = Some f" and "\<forall>w. f w = (w, Some err)"
    and "error_message err = Inr msg"
  shows "lm_hooks (fst (start_attempt p inst rt))
    = action ''plugin:error'' (error_data p err)
        (unregisterPlugin p
          (case m_hooks inst of
             None \<Rightarrow> action ''plugin:before-enable'' (plugin_data p) (lm_hooks rt)
           | Some hks \<Rightarrow> registerPluginHooks p hks
                          (action ''plugin:before-enable'' (plugin_data p) (lm_hooks rt))))"
  using assms
  by (simp add: start_attempt_def run_method_def takeSnapshot_def rollback_def emit_action_def
      map_get_map_set setError_throws Let_def split: option.splits)

text \<open>The \<open>catch\<close> path of \<open>stopPlugin\<close>.\<close>

lemma stop_attempt_failure:
  assumes "m_stop inst = Some f" and "\<forall>w. snd (f w) = Some err"
  shows "getState (lm_registry (fst (stop_attempt p inst rt))) p = ERROR"
    and "map_get (errors (lm_registry (fst (stop_attempt p inst rt)))) p = Some err"
    and "lm_hooks (fst (stop_attempt p inst rt))
       = fst (fst (f (action ''plugin:before-disable'' (plugin_data p) (lm_hooks rt), lm_settings rt)))"
    and "snd (stop_attempt p inst rt) =
           (case error_message err of
              Inr msg \<Rightarrow> Inr False
            | Inl e \<Rightarrow> if map_has (metadata (lm_registry rt)) p then Inl e else Inr False)"
  using assms
  by (simp_all add: stop_attempt_def run_method_def emit_action_def Let_def
      setError_state setError_errors setError_throws split: option.splits sum.splits)

text \<open>The scenarios, evaluated.\<close>

lemma manifest_p_fields:
  "m_start manifest_p = Some throwing" "m_stop manifest_p = Some throwing"
  "m_hooks manifest_p = Some [(''dom:ready'', h_noop), (''dom:mutated'', h_noop)]"
  by (simp_all add: manifest_p_def plain_manifest_def)

lemma throwing_throws:
  "\<forall>w. snd (throwing w) = Some (Error ''boom'')" "\<forall>w. throwing w = (w, Some (Error ''boom''))"
  by (simp_all add: throwing_def)

lemma boom_message:
  "error_message (Error ''boom'') = Inr (JStr ''boom'')" "error_truthy (Error ''boom'')"
  by (simp_all add: error_message_def error_truthy_def)

lemma loaded_p_pre:
  "getState (lm_registry loaded_p) ''p'' = LOADED"
  "fst (checkDependencies (lm_registry loaded_p) ''p'')"
  "\<not> fst (checkConflicts (lm_registry loaded_p) ''p'')"
  "getInstance (lm_registry loaded_p) ''p'' = Some manifest_p"
  by (simp_all add: loaded_p_def manifest_p_def scenario_defs registry_defs)

lemma active_p_pre:
  "getState (lm_registry active_p) ''p'' = ACTIVE"
  "filter (\<lambda>depId. getState (lm_registry active_p) depId = ACTIVE)
     (getDependents (lm_registry active_p) ''p'') = []"
  "getInstance (lm_registry active_p) ''p'' = Some manifest_p"
  by (simp_all add: active_p_def manifest_p_def scenario_defs registry_defs)

lemma register_two_hooks:
  "registerPluginHooks ''p'' [(''dom:ready'', h_noop), (''dom:mutated'', h_noop)] hooks_empty
    = \<lparr>hooks = [(''dom:ready'', [\<lparr>handler = h_noop, priority = 50, once = False,
                                   plugin = Some ''p'', sym = 0\<rparr>]),
                (''dom:mutated'', [\<lparr>handler = h_noop, priority = 50, once = False,
                                     plugin = Some ''p'', sym = 1\<rparr>])],
       pluginHooks = [(''p'', [(''dom:ready'', 0), (''dom:mutated'', 1)])], nextSymbol = 2\<rparr>"
  by (simp add: registerPluginHooks_def register_def hooks_empty_def map_has_def truthy_plugin_def
      Let_def numeral_2_eq_2)

lemma unregister_two_hooks:
  "unregisterPlugin ''p''
     \<lparr>hooks = [(''dom:ready'', [\<lparr>handler = h_noop, priority = 50, once = False,
                                   plugin = Some ''p'', sym = 0\<rparr>]),
                (''dom:mutated'', [\<lparr>handler = h_noop, priority = 50, once = False,
                                     plugin = Some ''p'', sym = 1\<rparr>])],
       pluginHooks = [(''p'', [(''dom:ready'', 0), (''dom:mutated'', 1)])], nextSymbol = 2\<rparr>
   = \<lparr>hooks = [(''dom:mutated'', [\<lparr>handler = h_noop, priority = 50, once = False,
                                     plugin = Some ''p'', sym = 1\<rparr>])],
       pluginHooks = [], nextSymbol = 2\<rparr>"
  by (simp add: unregisterPlugin_def unregister_id_def truthy_plugin_def Let_def numeral_2_eq_2)

lemma loaded_p_failed_start_hooks:
  "hook_owners (lm_hooks (fst (start_attempt ''p'' manifest_p loaded_p)))
     = [(''dom:mutated'', [Some ''p''])]"
proof -
  have 3: "lm_hooks loaded_p = hooks_empty" by (simp add: loaded_p_def)
  have 4: "action ''plugin:before-enable'' (plugin_data ''p'') hooks_empty = hooks_empty"
    by (rule action_no_handlers) (simp add: hooks_empty_def)
  show ?thesis
    unfolding start_attempt_failure_hooks [OF manifest_p_fields(1) throwing_throws(2) boom_message(1)]
      manifest_p_fields(3) 3 4 option.case register_two_hooks unregister_two_hooks
    by (simp add: action_no_handlers hook_owners_def)
qed

lemma active_p_hooks:
  "lm_hooks active_p
    = \<lparr>hooks = [(''dom:ready'', [\<lparr>handler = h_noop, priority = 50, once = False,
                                   plugin = Some ''p'', sym = 0\<rparr>])],
       pluginHooks = [(''p'', [(''dom:ready'', 0)])], nextSymbol = 1\<rparr>"
  by (simp add: active_p_def registerPluginHooks_def register_def hooks_empty_def map_has_def
      truthy_plugin_def Let_def)

lemma active_p_failed_stop_hooks:
  "lm_hooks (fst (stop_attempt ''p'' manifest_p active_p)) = lm_hooks active_p"
proof -
  have "action ''plugin:before-disable'' (plugin_data ''p'') (lm_hooks active_p) = lm_hooks active_p"
    by (rule action_no_handlers) (simp add: active_p_hooks)
  then show ?thesis
    unfolding stop_attempt_failure(3) [OF manifest_p_fields(2) throwing_throws(1)]
    by (simp add: throwing_def)
qed

subsection \<open>A failing \<open>start\<close>\<close>

text \<open>
  Claim C2 says that a failed start leaves the module's state and hook registrations as
  they were. On the code, whenever the \<open>start\<close> method of a startable module (LOADED
  or STOPPED, dependencies ACTIVE, no ACTIVE conflict) throws, whatever value it throws,
  \<open>startPlugin\<close> leaves the module in state ERROR with the thrown value recorded:
  \<open>_rollback\<close> restores the snapshot's state, and the \<open>setError\<close> that follows it
  overwrites the state with ERROR. \<open>startPlugin\<close> then returns \<open>false\<close>; only when the
  thrown value is \<open>null\<close> or \<open>undefined\<close> and the module has a metadata entry does it
  reject instead, with the TypeError of \<open>setError\<close>.
\<close>

theorem startPlugin_failure_state:
  assumes st: "getState (lm_registry rt) p = LOADED \<or> getState (lm_registry rt) p = STOPPED"
    and deps: "fst (checkDependencies (lm_registry rt) p)"
    and conf: "\<not> fst (checkConflicts (lm_registry rt) p)"
    and inst: "getInstance (lm_registry rt) p = Some inst"
    and start: "m_start inst = Some f" and throws: "\<forall>w. snd (f w) = Some err"
  shows "getState (lm_registry (fst (startPlugin p rt))) p = ERROR
       \<and> map_get (errors (lm_registry (fst (startPlugin p rt)))) p = Some err
       \<and> getError (lm_registry (fst (startPlugin p rt))) p
           = (if error_truthy err then Some err else None)
       \<and> snd (startPlugin p rt) =
           (case error_message err of
              Inr msg \<Rightarrow> Inr False
            | Inl e \<Rightarrow> if map_has (metadata (lm_registry rt)) p then Inl e else Inr False)"
proof -
  have "startPlugin p rt = start_attempt p inst rt"
    using st deps conf inst by (auto simp: startPlugin_def Let_def)
  then show ?thesis
    using start_attempt_failure [OF start throws, of p rt]
    by (simp add: getError_recorded)
qed

text \<open>
  The failing input: \<open>p\<close> is LOADED, declares two hooks, and its \<open>start\<close> throws
  \<open>new Error("boom")\<close>. \<open>startPlugin\<close> returns \<open>false\<close>; after it the state is ERROR, not
  LOADED, and the handler for \<open>dom:mutated\<close> is still registered although \<open>p\<close> owned no
  registration before: \<open>unregisterPlugin\<close> iterates with \<open>forEach\<close> over the tracking
  array that \<open>_unregister\<close> splices, which skips every other record.
\<close>

theorem startPlugin_failure_state_witness:
  "(getState (lm_registry loaded_p) ''p'' = LOADED \<or> getState (lm_registry loaded_p) ''p'' = STOPPED)
   \<and> fst (checkDependencies (lm_registry loaded_p) ''p'')
   \<and> \<not> fst (checkConflicts (lm_registry loaded_p) ''p'')
   \<and> getInstance (lm_registry loaded_p) ''p'' = Some manifest_p
   \<and> m_start manifest_p = Some throwing
   \<and> (\<forall>w. snd (throwing w) = Some (Error ''boom''))
   \<and> snd (startPlugin ''p'' loaded_p) = Inr False
   \<and> getState (lm_registry (fst (startPlugin ''p'' loaded_p))) ''p'' = ERROR
   \<and> getError (lm_registry (fst (startPlugin ''p'' loaded_p))) ''p'' = Some (Error ''boom'')
   \<and> hook_owners (lm_hooks loaded_p) = []
   \<and> hook_owners (lm_hooks (fst (startPlugin ''p'' loaded_p))) = [(''dom:mutated'', [Some ''p''])]"
proof -
  note pre = loaded_p_pre
  have before: "hook_owners (lm_hooks loaded_p) = []"
    by (simp add: loaded_p_def hook_owners_def hooks_empty_def)
  have run: "startPlugin ''p'' loaded_p = start_attempt ''p'' manifest_p loaded_p"
    using pre by (simp add: startPlugin_def Let_def)
  have T: "getState (lm_registry (fst (startPlugin ''p'' loaded_p))) ''p'' = ERROR
       \<and> map_get (errors (lm_registry (fst (startPlugin ''p'' loaded_p)))) ''p'' = Some (Error ''boom'')
       \<and> getError (lm_registry (fst (startPlugin ''p'' loaded_p))) ''p'' = Some (Error ''boom'')
       \<and> snd (startPlugin ''p'' loaded_p) = Inr False"
    using startPlugin_failure_state
      [OF disjI1 [OF pre(1)] pre(2) pre(3) pre(4) manifest_p_fields(1) throwing_throws(1)]
    by (simp add: boom_message)
  have s: "getState (lm_registry (fst (startPlugin ''p'' loaded_p))) ''p'' = ERROR"
    and g: "getError (lm_registry (fst (startPlugin ''p'' loaded_p))) ''p'' = Some (Error ''boom'')"
    and o: "snd (startPlugin ''p'' loaded_p) = Inr False"
    using T by simp_all
  have last: "hook_owners (lm_hooks (fst (startPlugin ''p'' loaded_p)))
      = [(''dom:mutated'', [Some ''p''])]"
    unfolding run by (rule loaded_p_failed_start_hooks)
  show ?thesis
    by (intro conjI disjI1 pre manifest_p_fields(1) throwing_throws(1) o s g before last)
qed

subsection \<open>A failing \<open>stop\<close>\<close>

text \<open>
  Claim C6, as the code has it. When the \<open>stop\<close> method of an ACTIVE module with no
  ACTIVE dependent throws, whatever value it throws, \<open>stopPlugin\<close> goes to its \<open>catch\<close>:
  it records the thrown value, which puts the module in state ERROR, and the module's
  hook subscriptions are not unregistered: the hook table is what the
  \<open>plugin:before-disable\<close> emission and the \<open>stop\<close> method left. \<open>getError\<close> reads the
  recorded value back unless it is falsy. \<open>stopPlugin\<close> returns \<open>false\<close> for every thrown
  value that is not \<open>null\<close> or \<open>undefined\<close>, an \<open>Error\<close> in particular; for those two
  \<open>setError\<close> throws a TypeError on a module with a metadata entry (every registered
  one), and \<open>stopPlugin\<close> rejects with it.
\<close>

theorem stopPlugin_failure:
  assumes st: "getState (lm_registry rt) p = ACTIVE"
    and nodeps: "filter (\<lambda>depId. getState (lm_registry rt) depId = ACTIVE)
                   (getDependents (lm_registry rt) p) = []"
    and inst: "getInstance (lm_registry rt) p = Some inst"
    and stop: "m_stop inst = Some f" and throws: "\<forall>w. snd (f w) = Some err"
  shows "getState (lm_registry (fst (stopPlugin p rt))) p = ERROR
       \<and> map_get (errors (lm_registry (fst (stopPlugin p rt)))) p = Some err
       \<and> getError (lm_registry (fst (stopPlugin p rt))) p
           = (if error_truthy err then Some err else None)
       \<and> lm_hooks (fst (stopPlugin p rt))
           = fst (fst (f (action ''plugin:before-disable'' (plugin_data p) (lm_hooks rt),
                          lm_settings rt)))
       \<and> snd (stopPlugin p rt) =
           (case error_message err of
              Inr msg \<Rightarrow> Inr False
            | Inl e \<Rightarrow> if map_has (metadata (lm_registry rt)) p then Inl e else Inr False)"
proof -
  have "stopPlugin p rt = stop_attempt p inst rt"
    using st nodeps inst by (simp add: stopPlugin_def Let_def)
  then show ?thesis
    using stop_attempt_failure [OF stop throws, of p rt]
    by (simp add: getError_recorded)
qed

theorem stopPlugin_failure_witness:
  "getState (lm_registry active_p) ''p'' = ACTIVE
   \<and> filter (\<lambda>depId. getState (lm_registry active_p) depId = ACTIVE)
         (getDependents (lm_registry active_p) ''p'') = []
   \<and> getInstance (lm_registry active_p) ''p'' = Some manifest_p
   \<and> m_stop manifest_p = Some throwing
   \<and> (\<forall>w. snd (throwing w) = Some (Error ''boom''))
   \<and> snd (stopPlugin ''p'' active_p) = Inr False
   \<and> getState (lm_registry (fst (stopPlugin ''p'' active_p))) ''p'' = ERROR
   \<and> getError (lm_registry (fst (stopPlugin ''p'' active_p))) ''p'' = Some (Error ''boom'')
   \<and> lm_hooks (fst (stopPlugin ''p'' active_p)) = lm_hooks active_p"
proof -
  note pre = active_p_pre
  have quiet: "action ''plugin:before-disable'' (plugin_data ''p'') (lm_hooks active_p)
      = lm_hooks active_p"
    by (rule action_no_handlers) (simp add: active_p_hooks)
  have T: "getState (lm_registry (fst (stopPlugin ''p'' active_p))) ''p'' = ERROR
       \<and> map_get (errors (lm_registry (fst (stopPlugin ''p'' active_p)))) ''p'' = Some (Error ''boom'')
       \<and> getError (lm_registry (fst (stopPlugin ''p'' active_p))) ''p'' = Some (Error ''boom'')
       \<and> lm_hooks (fst (stopPlugin ''p'' active_p))
           = fst (fst (throwing (action ''plugin:before-disable'' (plugin_data ''p'')
                                    (lm_hooks active_p), lm_settings active_p)))
       \<and> snd (stopPlugin ''p'' active_p) = Inr False"
    using stopPlugin_failure [OF pre manifest_p_fields(2) throwing_throws(1)]
    by (simp add: boom_message)
  have s: "getState (lm_registry (fst (stopPlugin ''p'' active_p))) ''p'' = ERROR"
    and g: "getError (lm_registry (fst (stopPlugin ''p'' active_p))) ''p'' = Some (Error ''boom'')"
    and h: "lm_hooks (fst (stopPlugin ''p'' active_p))
           = fst (fst (throwing (action ''plugin:before-disable'' (plugin_data ''p'')
                                    (lm_hooks active_p), lm_settings active_p)))"
    and o: "snd (stopPlugin ''p'' active_p) = Inr False"
    using T by simp_all
  have h': "lm_hooks (fst (stopPlugin ''p'' active_p)) = lm_hooks active_p"
    using h quiet by (simp add: throwing_def)
  show ?thesis
    by (intro conjI pre manifest_p_fields(2) throwing_throws(1) o s g h')
qed

text \<open>
  The claim as stated fails at \<open>active_p\<close>, whose \<open>stop\<close> throws \<open>new Error("boom")\<close>:
  \<open>stopPlugin\<close> returns \<open>false\<close>, and after it the module is in state ERROR, not STOPPED,
  and its handler for \<open>dom:ready\<close> is still registered.
\<close>

theorem stopPlugin_failure_counterexample:
  "getState (lm_registry active_p) ''p'' = ACTIVE
   \<and> snd (stopPlugin ''p'' active_p) = Inr False
   \<and> getState (lm_registry (fst (stopPlugin ''p'' active_p))) ''p'' = ERROR
   \<and> hook_owners (lm_hooks (fst (stopPlugin ''p'' active_p)))
       = [(''dom:ready'', [Some ''p''])]"
proof -
  have run: "stopPlugin ''p'' active_p = stop_attempt ''p'' manifest_p active_p"
    using active_p_pre by (simp add: stopPlugin_def Let_def)
  have "hook_owners (lm_hooks active_p) = [(''dom:ready'', [Some ''p''])]"
    by (simp add: active_p_hooks hook_owners_def)
  then show ?thesis
    using active_p_pre(1) stop_attempt_failure(1,4) [OF manifest_p_fields(2) throwing_throws(1)]
    by (simp add: run active_p_failed_stop_hooks boom_message)
qed

section \<open>Properties of the reconciliation\<close>






lemma instances_setState [simp]: "instances (setState p s r) = instances r"
  by (simp add: setState_def)

lemma instances_clearError [simp]: "instances (clearError p r) = instances r"
  by (simp add: clearError_def)


























subsection \<open>What the reconcile path does write\<close>






section \<open>Properties of the IPCManager\<close>

subsection \<open>The invariant holds in every state a broker reaches\<close>

lemma keys_map_set: "fst ` set (map_set m k v) = insert k (fst ` set m)"
  by (simp add: map_set_update dom_update)

lemma map_fst_map_delete: "map fst (map_delete m k) = removeAll k (map fst m)"
  by (induction m) auto

lemma keys_map_delete: "fst ` set (map_delete m k) = fst ` set m - {k}"
proof -
  have "set (map fst (map_delete m k)) = set (map fst m) - {k}"
    by (simp add: map_fst_map_delete)
  then show ?thesis by simp
qed

lemma map_get_Some_keys: "map_get m k = Some v \<Longrightarrow> k \<in> fst ` set m"
  by (metis map_get_map_of map_of_eq_None_iff option.distinct(1))

lemma settle_fields [simp]:
  "ipc_destroyed (settle rid res s) = ipc_destroyed s"
  "requestId (settle rid res s) = requestId s"
  "pendingRequests (settle rid res s) = pendingRequests s"
  "handlers (settle rid res s) = handlers s"
  "runtime_present (settle rid res s) = runtime_present s"
  "messageListener (settle rid res s) = messageListener s"
  "listener_attached (settle rid res s) = listener_attached s"
  "timers (settle rid res s) = timers s"
  "in_transit (settle rid res s) = in_transit s"
  "sent (settle rid res s) = sent s"
  "replies (settle rid res s) = replies s"
  by (simp_all add: settle_def)

lemma settle_settled: "fst ` set (settled (settle rid res s)) = insert rid (fst ` set (settled s))"
  by (auto simp: settle_def)

lemma inv_sets_issue:
  assumes "inv_sets T P S I n"
  shows "inv_sets (insert (Suc n) T) (insert (Suc n) P) S (insert (Suc n) I) (Suc n)"
    and "inv_sets (insert (Suc n) T - {Suc n}) (insert (Suc n) P - {Suc n}) (insert (Suc n) S) I (Suc n)"
proof -
  have r: "{1..Suc n} = insert (Suc n) {1..n}" by auto
  have "P \<subseteq> {1..n}" "S \<subseteq> {1..n}" using assms unfolding inv_sets_def by blast+
  then have fresh: "Suc n \<notin> P" "Suc n \<notin> S" by auto
  show "inv_sets (insert (Suc n) T) (insert (Suc n) P) S (insert (Suc n) I) (Suc n)"
    using assms fresh unfolding inv_sets_def r by blast
  show "inv_sets (insert (Suc n) T - {Suc n}) (insert (Suc n) P - {Suc n}) (insert (Suc n) S) I (Suc n)"
    using assms fresh unfolding inv_sets_def r by blast
qed

lemma inv_sets_settle:
  assumes "inv_sets T P S I n" and "rid \<in> {1..n}" and "I' \<subseteq> I"
  shows "inv_sets (T - {rid}) (P - {rid}) (insert rid S) I' n"
  using assms unfolding inv_sets_def by blast

lemma inv_sets_destroy:
  assumes "inv_sets T P S I n"
  shows "inv_sets (T - P) {} (S \<union> P) I n"
  using assms unfolding inv_sets_def by blast

lemma inv_sets_range:
  assumes "inv_sets T P S I n"
  shows "T \<subseteq> {1..n}" "P \<subseteq> {1..n}" "I \<subseteq> {1..n}"
  using assms unfolding inv_sets_def by blast+

lemma inv_request: "ipc_inv s \<Longrightarrow> ipc_inv (fst (request a d opts sr s))"
  unfolding ipc_inv_def request_def Let_def
  by (auto simp: keys_map_set keys_map_delete settle_settled
      dest: inv_sets_issue split: option.splits send_outcome.splits)

lemma inv_send_failed: "ipc_inv s \<Longrightarrow> ipc_inv (send_failed rid m s)"
proof (cases "rid \<in> set (in_transit s)")
  case False
  assume "ipc_inv s" then show ?thesis using False by (simp add: send_failed_def)
next
  case True
  assume inv: "ipc_inv s"
  then have sets: "inv_sets (fst ` set (timers s)) (fst ` set (pendingRequests s))
     (fst ` set (settled s)) (set (in_transit s)) (requestId s)"
    unfolding ipc_inv_def by blast
  have rid: "rid \<in> {1..requestId s}" using inv_sets_range(3) [OF sets] True by blast
  have "inv_sets (fst ` set (timers s) - {rid}) (fst ` set (pendingRequests s) - {rid})
     (insert rid (fst ` set (settled s))) (set (removeAll rid (in_transit s))) (requestId s)"
    by (rule inv_sets_settle [OF sets rid]) auto
  then show ?thesis
    using inv True unfolding ipc_inv_def send_failed_def
    by (simp add: keys_map_delete settle_settled)
qed

lemma inv_timeout_fires: "ipc_inv s \<Longrightarrow> ipc_inv (timeout_fires rid s)"
proof (cases "map_get (timers s) rid")
  case None
  assume "ipc_inv s" then show ?thesis using None by (simp add: timeout_fires_def)
next
  case (Some ta)
  assume inv: "ipc_inv s"
  then have sets: "inv_sets (fst ` set (timers s)) (fst ` set (pendingRequests s))
     (fst ` set (settled s)) (set (in_transit s)) (requestId s)"
    unfolding ipc_inv_def by blast
  have "rid \<in> fst ` set (timers s)" by (rule map_get_Some_keys [OF Some])
  then have rid: "rid \<in> {1..requestId s}" using inv_sets_range(1) [OF sets] by blast
  have "inv_sets (fst ` set (timers s) - {rid}) (fst ` set (pendingRequests s) - {rid})
     (insert rid (fst ` set (settled s))) (set (in_transit s)) (requestId s)"
    by (rule inv_sets_settle [OF sets rid]) auto
  then show ?thesis
    using inv Some unfolding ipc_inv_def timeout_fires_def
    by (simp add: keys_map_delete settle_settled)
qed

lemma inv_handleResponse: "ipc_inv s \<Longrightarrow> ipc_inv (handleResponse rid ok data err s)"
proof (cases "map_get (pendingRequests s) rid")
  case None
  assume "ipc_inv s" then show ?thesis using None by (simp add: handleResponse_def)
next
  case (Some a)
  assume inv: "ipc_inv s"
  then have sets: "inv_sets (fst ` set (timers s)) (fst ` set (pendingRequests s))
     (fst ` set (settled s)) (set (in_transit s)) (requestId s)"
    unfolding ipc_inv_def by blast
  have "rid \<in> fst ` set (pendingRequests s)" by (rule map_get_Some_keys [OF Some])
  then have rid: "rid \<in> {1..requestId s}" using inv_sets_range(2) [OF sets] by blast
  have "inv_sets (fst ` set (timers s) - {rid}) (fst ` set (pendingRequests s) - {rid})
     (insert rid (fst ` set (settled s))) (set (in_transit s)) (requestId s)"
    by (rule inv_sets_settle [OF sets rid]) auto
  moreover have "pendingRequests s \<noteq> []" using Some by auto
  ultimately show ?thesis
    using inv Some unfolding ipc_inv_def handleResponse_def
    by (simp add: keys_map_delete settle_settled)
qed

lemma inv_replies: "ipc_inv (s\<lparr>replies := r\<rparr>) = ipc_inv s"
  by (simp add: ipc_inv_def)

lemma inv_onMessage: "ipc_inv s \<Longrightarrow> ipc_inv (onMessage m s)"
proof (cases m)
  case (InRequest a d r)
  assume "ipc_inv s"
  then show ?thesis using InRequest
    by (simp add: onMessage_def handleRequest_def Let_def inv_replies)
next
  case (InResponse r ok d e)
  assume "ipc_inv s"
  then show ?thesis using InResponse inv_handleResponse by (simp add: onMessage_def)
qed (simp_all add: onMessage_def)

lemma reject_pending_fields [simp]:
  "ipc_destroyed (reject_pending p t) = ipc_destroyed t"
  "requestId (reject_pending p t) = requestId t"
  "runtime_present (reject_pending p t) = runtime_present t"
  "messageListener (reject_pending p t) = messageListener t"
  "listener_attached (reject_pending p t) = listener_attached t"
  "in_transit (reject_pending p t) = in_transit t"
  "sent (reject_pending p t) = sent t"
  by (simp_all add: reject_pending_def)

lemma reject_pending_sets:
  "fst ` set (settled (reject_pending p t)) = insert (fst p) (fst ` set (settled t))"
  "fst ` set (timers (reject_pending p t)) = fst ` set (timers t) - {fst p}"
  "set (settled t) \<subseteq> set (settled (reject_pending p t))"
  "fst p \<notin> fst ` set (settled t)
     \<Longrightarrow> (fst p, Rejected ''IPC destroyed - context ending'') \<in> set (settled (reject_pending p t))"
  by (auto simp: reject_pending_def settle_def keys_map_delete)

lemma destroy_fold_fields [simp]:
  "ipc_destroyed (fold reject_pending ps t) = ipc_destroyed t"
  "requestId (fold reject_pending ps t) = requestId t"
  "runtime_present (fold reject_pending ps t) = runtime_present t"
  "messageListener (fold reject_pending ps t) = messageListener t"
  "listener_attached (fold reject_pending ps t) = listener_attached t"
  "in_transit (fold reject_pending ps t) = in_transit t"
  "sent (fold reject_pending ps t) = sent t"
  by (induction ps arbitrary: t; simp)+

lemma destroy_fold_settled:
  "fst ` set (settled (fold reject_pending ps t)) = fst ` set (settled t) \<union> fst ` set ps"
  by (induction ps arbitrary: t) (auto simp: reject_pending_sets(1))

lemma destroy_fold_timers:
  "fst ` set (timers (fold reject_pending ps t)) = fst ` set (timers t) - fst ` set ps"
  by (induction ps arbitrary: t) (auto simp: reject_pending_sets(2))

lemma destroy_fold_mono:
  "set (settled t) \<subseteq> set (settled (fold reject_pending ps t))"
proof (induction ps arbitrary: t)
  case Nil
  then show ?case by simp
next
  case (Cons p ps)
  show ?case using Cons.IH [of "reject_pending p t"] reject_pending_sets(3) [of t p] by auto
qed

lemma destroy_fold_rejects:
  assumes "rid \<in> fst ` set ps" and "rid \<notin> fst ` set (settled t)"
  shows "(rid, Rejected ''IPC destroyed - context ending'') \<in> set (settled (fold reject_pending ps t))"
  using assms
proof (induction ps arbitrary: t)
  case Nil
  then show ?case by simp
next
  case (Cons p ps)
  show ?case
  proof (cases "fst p = rid")
    case True
    then have "(rid, Rejected ''IPC destroyed - context ending'') \<in> set (settled (reject_pending p t))"
      using reject_pending_sets(4) [of p t] Cons.prems(2) by simp
    then show ?thesis using destroy_fold_mono [of "reject_pending p t" ps] by auto
  next
    case False
    then have "rid \<in> fst ` set ps" using Cons.prems(1) by auto
    moreover have "rid \<notin> fst ` set (settled (reject_pending p t))"
      using False Cons.prems(2) by (simp add: reject_pending_sets(1))
    ultimately show ?thesis using Cons.IH by simp
  qed
qed

lemma inv_destroy: "ipc_inv s \<Longrightarrow> ipc_inv (destroy thr s)"
proof (cases "ipc_destroyed s")
  case True
  assume "ipc_inv s" then show ?thesis using True by (simp add: destroy_def)
next
  case False
  assume inv: "ipc_inv s"
  then have sets: "inv_sets (fst ` set (timers s)) (fst ` set (pendingRequests s))
     (fst ` set (settled s)) (set (in_transit s)) (requestId s)"
    unfolding ipc_inv_def by blast
  let ?s1 = "s\<lparr>ipc_destroyed := True\<rparr>"
  have "inv_sets (fst ` set (timers s) - fst ` set (pendingRequests s)) {}
          (fst ` set (settled s) \<union> fst ` set (pendingRequests s)) (set (in_transit s)) (requestId s)"
    by (rule inv_sets_destroy [OF sets])
  then have "inv_sets (fst ` set (timers (fold reject_pending (pendingRequests s) ?s1))) {}
          (fst ` set (settled (fold reject_pending (pendingRequests s) ?s1)))
          (set (in_transit s)) (requestId s)"
    by (simp add: destroy_fold_settled destroy_fold_timers)
  then show ?thesis
    using inv False unfolding ipc_inv_def destroy_def Let_def by auto
qed

lemma inv_frame:
  "ipc_inv (s\<lparr>handlers := h\<rparr>) = ipc_inv s"
  "ipc_inv (s\<lparr>sent := x\<rparr>) = ipc_inv s"
  by (simp_all add: ipc_inv_def)

lemma inv_step: "ipc_inv s \<Longrightarrow> ipc_inv (ipc_step e s)"
  by (cases e)
     (simp_all add: inv_request inv_send_failed inv_timeout_fires inv_onMessage inv_destroy
        ipc_on_def ipc_off_def sendEvent_def broadcast_def inv_frame)

lemma inv_initial: "ipc_inv (ipc_initial rp)"
  by (simp add: ipc_inv_def ipc_initial_def inv_sets_def)

lemma inv_run: "ipc_inv s \<Longrightarrow> ipc_inv (ipc_run evs s)"
  unfolding ipc_run_def by (induction evs arbitrary: s) (simp_all add: inv_step)

lemma destroyed_step: "ipc_destroyed s \<Longrightarrow> ipc_destroyed (ipc_step e s)"
  by (cases e)
     (simp_all add: request_def send_failed_def timeout_fires_def onMessage_def ipc_on_def
        ipc_off_def sendEvent_def broadcast_def destroy_def split: option.splits)

lemma destroyed_run: "ipc_destroyed s \<Longrightarrow> ipc_destroyed (ipc_run evs s)"
  unfolding ipc_run_def by (induction evs arbitrary: s) (simp_all add: destroyed_step)

lemma destroyed_quiescent:
  assumes inv: "ipc_inv s" and d: "ipc_destroyed s"
  shows "pendingRequests s = []" and "timers s = []"
proof -
  show p: "pendingRequests s = []" using inv d unfolding ipc_inv_def by blast
  have "fst ` set (timers s) \<subseteq> fst ` set (pendingRequests s)"
    using inv unfolding ipc_inv_def inv_sets_def by blast
  then show "timers s = []" using p by simp
qed

lemma destroyed_inert:
  assumes d: "ipc_destroyed s"
  shows "request a dt opts sr s = (s, Inl (Error ''IPC destroyed - cannot send request''))"
    and "sendEvent ev dt tg sr s = s"
    and "broadcast ev dt sr s = s"
    and "onMessage m s = s"
  using d by (simp_all add: request_def sendEvent_def broadcast_def onMessage_def)

lemma destroyed_step_frozen:
  assumes inv: "ipc_inv s" and d: "ipc_destroyed s"
  shows "settled (ipc_step e s) = settled s"
    and "sent (ipc_step e s) = sent s"
    and "replies (ipc_step e s) = replies s"
proof -
  have p: "pendingRequests s = []" and t: "timers s = []"
    using destroyed_quiescent [OF inv d] by simp_all
  have S: "set (in_transit s) \<subseteq> fst ` set (settled s)"
    using inv p unfolding ipc_inv_def inv_sets_def by auto
  have sf: "settled (send_failed rid m s) = settled s"
    "sent (send_failed rid m s) = sent s" "replies (send_failed rid m s) = replies s" for rid m
    using S by (auto simp: send_failed_def settle_def)
  show "settled (ipc_step e s) = settled s"
    using d t sf(1)
    by (cases e) (simp_all add: request_def timeout_fires_def onMessage_def ipc_on_def
        ipc_off_def sendEvent_def broadcast_def destroy_def)
  show "sent (ipc_step e s) = sent s"
    using d t sf(2)
    by (cases e) (simp_all add: request_def timeout_fires_def onMessage_def ipc_on_def
        ipc_off_def sendEvent_def broadcast_def destroy_def)
  show "replies (ipc_step e s) = replies s"
    using d t sf(3)
    by (cases e) (simp_all add: request_def timeout_fires_def onMessage_def ipc_on_def
        ipc_off_def sendEvent_def broadcast_def destroy_def)
qed

lemma destroyed_run_frozen:
  assumes "ipc_inv s" and "ipc_destroyed s"
  shows "settled (ipc_run evs s) = settled s \<and> sent (ipc_run evs s) = sent s
       \<and> replies (ipc_run evs s) = replies s"
  using assms unfolding ipc_run_def
proof (induction evs arbitrary: s)
  case Nil
  then show ?case by simp
next
  case (Cons e evs)
  have "ipc_inv (ipc_step e s)" "ipc_destroyed (ipc_step e s)"
    using Cons.prems inv_step destroyed_step by blast+
  from Cons.IH [OF this] show ?case
    using destroyed_step_frozen [OF Cons.prems, of e] by simp
qed

lemma destroy_effect:
  assumes inv: "ipc_inv s" and live: "\<not> ipc_destroyed s"
  shows "ipc_destroyed (destroy thr s)"
    and "pendingRequests (destroy thr s) = []"
    and "timers (destroy thr s) = []"
    and "handlers (destroy thr s) = []"
    and "\<not> messageListener (destroy thr s)"
    and "\<not> thr \<Longrightarrow> \<not> listener_attached (destroy thr s)"
    and "rid \<in> fst ` set (pendingRequests s)
           \<Longrightarrow> (rid, Rejected ''IPC destroyed - context ending'') \<in> set (settled (destroy thr s))"
    and "fst ` set (settled (destroy thr s)) = {1..requestId (destroy thr s)}"
proof -
  have inv': "ipc_inv (destroy thr s)" by (rule inv_destroy [OF inv])
  show d: "ipc_destroyed (destroy thr s)" using live by (simp add: destroy_def Let_def)
  show p: "pendingRequests (destroy thr s) = []" by (rule destroyed_quiescent(1) [OF inv' d])
  show "timers (destroy thr s) = []" by (rule destroyed_quiescent(2) [OF inv' d])
  show "handlers (destroy thr s) = []" using live by (simp add: destroy_def Let_def)
  show "\<not> messageListener (destroy thr s)" using inv' d unfolding ipc_inv_def by blast
  show "\<not> listener_attached (destroy thr s)" if "\<not> thr"
    using that inv live unfolding ipc_inv_def by (auto simp: destroy_def Let_def)
  show "(rid, Rejected ''IPC destroyed - context ending'') \<in> set (settled (destroy thr s))"
    if rid: "rid \<in> fst ` set (pendingRequests s)"
  proof -
    have "rid \<notin> fst ` set (settled s)"
      using inv rid unfolding ipc_inv_def inv_sets_def by blast
    then have "(rid, Rejected ''IPC destroyed - context ending'')
        \<in> set (settled (fold reject_pending (pendingRequests s) (s\<lparr>ipc_destroyed := True\<rparr>)))"
      using destroy_fold_rejects [OF rid, of "s\<lparr>ipc_destroyed := True\<rparr>"] by simp
    then show ?thesis using live by (simp add: destroy_def Let_def)
  qed
  show "fst ` set (settled (destroy thr s)) = {1..requestId (destroy thr s)}"
    using inv' p unfolding ipc_inv_def inv_sets_def by simp
qed

subsection \<open>\<open>destroy\<close> is terminal\<close>

text \<open>
  Claim C9, as the code has it. Take any state a broker reaches from its construction by
  requests, send failures, timeouts, inbound messages, handler registrations, events
  and broadcasts, and let \<open>destroy()\<close> be called in it for the first time. Then, when
  \<open>destroy\<close> returns: the broker is destroyed; every request that was pending has been
  rejected with \<open>IPC destroyed - context ending\<close> and its timer cleared, so that no
  request is pending, no timer is armed, and every request ever issued is settled; no
  handler is registered; the broker holds no listener. The host holds the listener no
  longer either, unless its \<open>removeListener\<close> threw, which \<open>destroy\<close> swallows. Whatever
  happens afterwards (a listener left attached being invoked, the send continuation of
  a request that was in transit running, a late timeout), the broker stays destroyed
  with nothing pending and no timer, no promise is settled or settled anew, and nothing
  is sent or replied: every \<open>request\<close> fails at once with
  \<open>IPC destroyed - cannot send request\<close>, \<open>sendEvent\<close> and \<open>broadcast\<close> do nothing, and an
  inbound message is ignored.
\<close>

theorem destroy_terminal:
  assumes live: "\<not> ipc_destroyed (ipc_run evs (ipc_initial rp))"
  shows "let s = ipc_run evs (ipc_initial rp); s' = destroy remove_throws s in
     ipc_destroyed s' \<and> pendingRequests s' = [] \<and> timers s' = [] \<and> handlers s' = []
     \<and> \<not> messageListener s' \<and> (\<not> remove_throws \<longrightarrow> \<not> listener_attached s')
     \<and> (\<forall>rid\<in>fst ` set (pendingRequests s).
           (rid, Rejected ''IPC destroyed - context ending'') \<in> set (settled s'))
     \<and> fst ` set (settled s') = {1..requestId s'}
     \<and> (\<forall>later. let s'' = ipc_run later s' in
           ipc_destroyed s'' \<and> pendingRequests s'' = [] \<and> timers s'' = []
           \<and> settled s'' = settled s' \<and> sent s'' = sent s' \<and> replies s'' = replies s'
           \<and> (\<forall>a d opts sr. request a d opts sr s''
                  = (s'', Inl (Error ''IPC destroyed - cannot send request'')))
           \<and> (\<forall>ev d tg sr. sendEvent ev d tg sr s'' = s'')
           \<and> (\<forall>ev d sr. broadcast ev d sr s'' = s'')
           \<and> (\<forall>m. onMessage m s'' = s''))"
proof -
  let ?s = "ipc_run evs (ipc_initial rp)"
  let ?s' = "destroy remove_throws ?s"
  have inv: "ipc_inv ?s" by (rule inv_run [OF inv_initial])
  note eff = destroy_effect [OF inv live, where thr = remove_throws]
  have inv': "ipc_inv ?s'" by (rule inv_destroy [OF inv])
  have later: "ipc_destroyed (ipc_run later ?s') \<and> pendingRequests (ipc_run later ?s') = []
           \<and> timers (ipc_run later ?s') = []
           \<and> settled (ipc_run later ?s') = settled ?s' \<and> sent (ipc_run later ?s') = sent ?s'
           \<and> replies (ipc_run later ?s') = replies ?s'
           \<and> (\<forall>a d opts sr. request a d opts sr (ipc_run later ?s')
                  = (ipc_run later ?s', Inl (Error ''IPC destroyed - cannot send request'')))
           \<and> (\<forall>ev d tg sr. sendEvent ev d tg sr (ipc_run later ?s') = ipc_run later ?s')
           \<and> (\<forall>ev d sr. broadcast ev d sr (ipc_run later ?s') = ipc_run later ?s')
           \<and> (\<forall>m. onMessage m (ipc_run later ?s') = ipc_run later ?s')" for later
  proof -
    have d: "ipc_destroyed (ipc_run later ?s')" by (rule destroyed_run [OF eff(1)])
    have i: "ipc_inv (ipc_run later ?s')" by (rule inv_run [OF inv'])
    show ?thesis
      using d destroyed_quiescent [OF i d] destroyed_inert [OF d]
        destroyed_run_frozen [OF inv' eff(1), of later] by simp
  qed
  show ?thesis
    unfolding Let_def using eff later by blast
qed

lemmas ipc_defs = ipc_run_def ipc_initial_def request_def ipc_on_def destroy_def reject_pending_def
  settle_def Let_def

lemma two_requests_state:
  "ipc_run two_requests (ipc_initial True) =
    \<lparr>ipc_destroyed = False, requestId = 2,
     pendingRequests = [(1, ''settings:get''), (2, ''ping'')],
     handlers = [(''ping'', \<lambda>d. Returned d)],
     runtime_present = True, messageListener = True, listener_attached = True,
     timers = [(1, (''settings:get'', 50)), (2, (''ping'', 5000))],
     settled = [], in_transit = [1, 2],
     sent = [OutRequest None ''settings:get'' JNull 1, OutRequest None ''ping'' JNull 2],
     replies = []\<rparr>"
  by (simp add: two_requests_def ipc_defs)

lemma two_requests_destroyed:
  "settled (destroy False (ipc_run two_requests (ipc_initial True)))
       = [(1, Rejected ''IPC destroyed - context ending''),
          (2, Rejected ''IPC destroyed - context ending'')]"
  unfolding two_requests_state
  by (simp add: destroy_def reject_pending_def settle_def Let_def)

theorem destroy_terminal_witness:
  "\<not> ipc_destroyed (ipc_run two_requests (ipc_initial True))
   \<and> map fst (pendingRequests (ipc_run two_requests (ipc_initial True))) = [1, 2]
   \<and> map fst (timers (ipc_run two_requests (ipc_initial True))) = [1, 2]
   \<and> settled (ipc_run two_requests (ipc_initial True)) = []
   \<and> settled (destroy False (ipc_run two_requests (ipc_initial True)))
       = [(1, Rejected ''IPC destroyed - context ending''),
          (2, Rejected ''IPC destroyed - context ending'')]
   \<and> timers (destroy False (ipc_run two_requests (ipc_initial True))) = []
   \<and> pendingRequests (destroy False (ipc_run two_requests (ipc_initial True))) = []
   \<and> handlers (destroy False (ipc_run two_requests (ipc_initial True))) = []
   \<and> \<not> listener_attached (destroy False (ipc_run two_requests (ipc_initial True)))
   \<and> snd (request ''ping'' JNull \<lparr>ro_timeout = None, ro_target = None\<rparr> SendAsync
            (destroy False (ipc_run two_requests (ipc_initial True))))
       = Inl (Error ''IPC destroyed - cannot send request'')"
proof -
  let ?s = "ipc_run two_requests (ipc_initial True)"
  have live: "\<not> ipc_destroyed ?s" by (simp add: two_requests_state)
  have before: "map fst (pendingRequests ?s) = [1, 2]" "map fst (timers ?s) = [1, 2]"
    "settled ?s = []"
    by (simp_all add: two_requests_state)
  note T = destroy_terminal [OF live, of False, unfolded Let_def]
  have t1: "pendingRequests (destroy False ?s) = []" using T by (elim conjE)
  have t2: "timers (destroy False ?s) = []" using T by (elim conjE)
  have t3: "handlers (destroy False ?s) = []" using T by (elim conjE)
  have t4: "\<not> listener_attached (destroy False ?s)" using T by (elim conjE) simp
  have "\<forall>later. \<forall>a d opts sr. request a d opts sr (ipc_run later (destroy False ?s))
     = (ipc_run later (destroy False ?s), Inl (Error ''IPC destroyed - cannot send request''))"
    using T by (elim conjE) (intro allI, elim allE conjE, assumption)
  then have "request ''ping'' JNull \<lparr>ro_timeout = None, ro_target = None\<rparr> SendAsync
       (ipc_run [] (destroy False ?s))
     = (ipc_run [] (destroy False ?s), Inl (Error ''IPC destroyed - cannot send request''))"
    by (elim allE)
  then have r: "snd (request ''ping'' JNull \<lparr>ro_timeout = None, ro_target = None\<rparr> SendAsync
            (destroy False ?s)) = Inl (Error ''IPC destroyed - cannot send request'')"
    by (simp add: ipc_run_def)
  show ?thesis
    by (intro conjI live before two_requests_destroyed t1 t2 t3 t4 r)
qed

text \<open>
  The claim as stated (the inbound listener is detached, no continuation survives)
  fails in the state of \<open>two_requests\<close>. When the host's \<open>removeListener\<close> throws,
  \<open>destroy\<close> swallows the error and the host still holds the listener. And the send
  continuations of the two requests in transit outlive \<open>destroy\<close>: the one of request 1
  still runs when its send fails afterwards.
\<close>

theorem destroy_terminal_counterexample:
  "\<not> ipc_destroyed (ipc_run two_requests (ipc_initial True))
   \<and> listener_attached (destroy True (ipc_run two_requests (ipc_initial True)))
   \<and> in_transit (destroy False (ipc_run two_requests (ipc_initial True))) = [1, 2]
   \<and> in_transit (send_failed 1 ''Receiving end does not exist''
                    (destroy False (ipc_run two_requests (ipc_initial True)))) = [2]"
  unfolding two_requests_state
  by (simp add: destroy_def reject_pending_def settle_def send_failed_def Let_def)

end
